theory Spec2Isabelle
  imports Main
begin

section \<open>Persistent treap: data model\<close>

text \<open>
  The C++ \<^verbatim>\<open>struct Node { Tkey key; Tval val; int p; shared_ptr<Node> left, right; }\<close>.
  A \<^verbatim>\<open>shared_ptr<Node>\<close> is either nil or owns a node, so a pointer to a node is the
  datatype below, with \<open>Null\<close> for the nil pointer. The fields keep the order of the
  struct. Published nodes are never written again (every operation builds clones), so
  the pointer graph is a tree of values. The priority \<^verbatim>\<open>int p\<close> is only ever compared
  with \<^verbatim>\<open><\<close>, never computed with, so it is an \<open>int\<close>. \<^verbatim>\<open>Tkey\<close> is used with
  \<^verbatim>\<open>==\<close> and \<^verbatim>\<open><\<close> as a total order.
\<close>

datatype ('k, 'v) node = Null | Node 'k 'v int "('k, 'v) node" "('k, 'v) node"

text \<open>The class \<^verbatim>\<open>PersistTreap\<close> has the single field \<^verbatim>\<open>root\<close>.\<close>

record ('k, 'v) PersistTreap =
  root :: "('k, 'v) node"

section \<open>Split\<close>

text \<open>\<^verbatim>\<open>split_rec\<close> (lines 29-71): the recursive formulation.\<close>

fun split_rec :: "('k::linorder, 'v) node \<Rightarrow> 'k \<Rightarrow> ('k, 'v) node \<times> ('k, 'v) node \<times> ('k, 'v) node" where
  "split_rec Null key = (Null, Null, Null)"
| "split_rec (Node k x pr l r) key =
     (if k = key then (l, r, Node k x pr l r)
      else if key < k then
        (case split_rec l key of (r1, r2, a) \<Rightarrow> (r1, Node k x pr r2 r, a))
      else
        (case split_rec r key of (r1, r2, a) \<Rightarrow> (Node k x pr l r1, r2, a)))"

text \<open>
  \<^verbatim>\<open>split_loop\<close> (lines 82-149): the loop with two holes. \<^verbatim>\<open>t1\<close> and \<^verbatim>\<open>t2\<close> are
  pointers to a \<^verbatim>\<open>shared_ptr\<close> slot: at first \<^verbatim>\<open>&result1\<close> and \<^verbatim>\<open>&result2\<close>, later
  \<^verbatim>\<open>&vclone->right\<close> and \<^verbatim>\<open>&vclone->left\<close> of the clone stored last. Such a pointer is
  modelled by the path of fields that leads from the result variable to the slot: the
  empty path is the variable itself. A fresh clone's unset child is the nil pointer
  (\<^verbatim>\<open>make_shared<Node>()\<close> initialises both children to nil).
\<close>

datatype field = LeftField | RightField

type_synonym hole = "field list"

text \<open>
  \<open>store h w t\<close> is the assignment \<^verbatim>\<open>*h = w\<close> for a hole \<open>h\<close> inside the tree held by a
  result variable whose value is \<open>t\<close>. The loop only ever holds addresses of slots of
  clones it has stored itself, so the last equation (a path through a nil pointer) is
  never reached by it.
\<close>

fun store :: "hole \<Rightarrow> ('k, 'v) node \<Rightarrow> ('k, 'v) node \<Rightarrow> ('k, 'v) node" where
  "store [] w t = w"
| "store (LeftField # h) w (Node k x pr l r) = Node k x pr (store h w l) r"
| "store (RightField # h) w (Node k x pr l r) = Node k x pr l (store h w r)"
| "store (f # h) w Null = Null"

text \<open>\<open>load h t\<close> reads the slot, \<open>None\<close> when the path does not lead to a slot.\<close>

fun load :: "hole \<Rightarrow> ('k, 'v) node \<Rightarrow> ('k, 'v) node option" where
  "load [] t = Some t"
| "load (LeftField # h) (Node k x pr l r) = load h l"
| "load (RightField # h) (Node k x pr l r) = load h r"
| "load (f # h) Null = None"

text \<open>
  The \<^verbatim>\<open>while (v)\<close> loop. Its state is \<^verbatim>\<open>v\<close>, the two result variables and the two
  holes; \<^verbatim>\<open>a\<close> is written only by the branch that leaves the loop with \<^verbatim>\<open>break\<close>, so
  it is nil when the loop ends because \<^verbatim>\<open>v\<close> is nil. The function returns the tuple
  the C++ returns after the loop.
\<close>

fun split_while ::
  "('k::linorder, 'v) node \<Rightarrow> 'k \<Rightarrow> ('k, 'v) node \<times> hole \<Rightarrow> ('k, 'v) node \<times> hole
     \<Rightarrow> ('k, 'v) node \<times> ('k, 'v) node \<times> ('k, 'v) node" where
  "split_while Null key (result1, t1) (result2, t2) = (result1, result2, Null)"
| "split_while (Node k x pr l r) key (result1, t1) (result2, t2) =
     (if k = key then
        (store t1 l result1, store t2 r result2, Node k x pr l r)
      else if key < k then
        (let vclone = Node k x pr Null r in
         split_while l key (result1, t1) (store t2 vclone result2, t2 @ [LeftField]))
      else
        (let vclone = Node k x pr l Null in
         split_while r key (store t1 vclone result1, t1 @ [RightField]) (result2, t2)))"

definition split_loop :: "('k::linorder, 'v) node \<Rightarrow> 'k \<Rightarrow> ('k, 'v) node \<times> ('k, 'v) node \<times> ('k, 'v) node" where
  "split_loop v key = split_while v key (Null, []) (Null, [])"

text \<open>\<^verbatim>\<open>split\<close> (lines 152-155) calls the loop version.\<close>

definition split :: "('k::linorder, 'v) node \<Rightarrow> 'k \<Rightarrow> ('k, 'v) node \<times> ('k, 'v) node \<times> ('k, 'v) node" where
  "split v key = split_loop v key"

section \<open>Join\<close>

text \<open>\<^verbatim>\<open>join\<close> (lines 161-203).\<close>

fun join :: "('k, 'v) node \<Rightarrow> ('k, 'v) node \<Rightarrow> ('k, 'v) node" where
  "join Null v2 = v2"
| "join (Node k1 x1 p1 l1 r1) Null = Node k1 x1 p1 l1 r1"
| "join (Node k1 x1 p1 l1 r1) (Node k2 x2 p2 l2 r2) =
     (if p1 < p2 then Node k1 x1 p1 l1 (join r1 (Node k2 x2 p2 l2 r2))
      else Node k2 x2 p2 (join (Node k1 x1 p1 l1 r1) l2) r2)"

section \<open>Observations\<close>

text \<open>The number of nodes reachable from a pointer.\<close>

fun nodes :: "('k, 'v) node \<Rightarrow> nat" where
  "nodes Null = 0"
| "nodes (Node k x pr l r) = Suc (nodes l + nodes r)"

text \<open>
  Modelled from the spec: the source has no traversal (only the pre-order
  \<^verbatim>\<open>debug_print\<close>); the spec's \<open>traverse\<close> is the in-order walk giving the (key, value)
  pairs.
\<close>

fun traverse :: "('k, 'v) node \<Rightarrow> ('k \<times> 'v) list" where
  "traverse Null = []"
| "traverse (Node k x pr l r) = traverse l @ (k, x) # traverse r"

fun keys :: "('k, 'v) node \<Rightarrow> 'k set" where
  "keys Null = {}"
| "keys (Node k x pr l r) = insert k (keys l \<union> keys r)"

fun prios :: "('k, 'v) node \<Rightarrow> int set" where
  "prios Null = {}"
| "prios (Node k x pr l r) = insert pr (prios l \<union> prios r)"

text \<open>Invariant 1 of the spec: search-tree order (which gives key uniqueness).\<close>

fun bst :: "('k::linorder, 'v) node \<Rightarrow> bool" where
  "bst Null = True"
| "bst (Node k x pr l r) =
     (bst l \<and> bst r \<and> (\<forall>k' \<in> keys l. k' < k) \<and> (\<forall>k' \<in> keys r. k < k'))"

text \<open>
  Invariant 2: heap order, in the direction the code uses (the smaller priority is
  nearer the root: \<^verbatim>\<open>v1->p < v2->p\<close> makes \<^verbatim>\<open>v1\<close> the root).
\<close>

fun root_le :: "int \<Rightarrow> ('k, 'v) node \<Rightarrow> bool" where
  "root_le q Null = True"
| "root_le q (Node k x pr l r) = (q \<le> pr)"

fun heap :: "('k, 'v) node \<Rightarrow> bool" where
  "heap Null = True"
| "heap (Node k x pr l r) = (heap l \<and> heap r \<and> root_le pr l \<and> root_le pr r)"

definition treap :: "('k::linorder, 'v) node \<Rightarrow> bool" where
  "treap t = (bst t \<and> heap t)"

text \<open>The value a treap holds for a key: the first pair of the traversal with that key.\<close>

definition lookup :: "('k, 'v) node \<Rightarrow> 'k \<Rightarrow> 'v option" where
  "lookup t k = map_of (traverse t) k"

text \<open>The nodes reachable from a pointer (the pointer's own node included).\<close>

fun reachable :: "('k, 'v) node \<Rightarrow> ('k, 'v) node set" where
  "reachable Null = {}"
| "reachable (Node k x pr l r) = insert (Node k x pr l r) (reachable l \<union> reachable r)"

text \<open>Every priority in the tree is at least \<open>q\<close>.\<close>

definition all_ge :: "int \<Rightarrow> ('k, 'v) node \<Rightarrow> bool" where
  "all_ge q t = (\<forall>x \<in> prios t. q \<le> x)"

text \<open>The key at the root, when there is a root.\<close>

fun root_key :: "('k, 'v) node \<Rightarrow> 'k option" where
  "root_key Null = None"
| "root_key (Node k x pr l r) = Some k"

text \<open>\<open>map_vals f t\<close> is \<open>t\<close> with the value \<open>x\<close> stored under each key \<open>k\<close> replaced by \<open>f k x\<close>.\<close>

fun map_vals :: "('k \<Rightarrow> 'v \<Rightarrow> 'v) \<Rightarrow> ('k, 'v) node \<Rightarrow> ('k, 'v) node" where
  "map_vals f Null = Null"
| "map_vals f (Node k x pr l r) = Node k (f k x) pr (map_vals f l) (map_vals f r)"

text \<open>
  The precondition of \<^verbatim>\<open>join\<close> (its comment at line 162): the elements of \<^verbatim>\<open>v1\<close> have
  smaller keys than the elements of \<^verbatim>\<open>v2\<close>.
\<close>

definition join_pre :: "('k::linorder, 'v) node \<Rightarrow> ('k, 'v) node \<Rightarrow> bool" where
  "join_pre v1 v2 = (\<forall>x \<in> keys v1. \<forall>y \<in> keys v2. x < y)"

text \<open>
  Three small valid treaps, with the keys 1, 2, 3, the keys 2, 3, 4 and the keys 5, 6.
\<close>

definition example_A :: "(nat, nat) node" where
  "example_A = Node 2 20 1 (Node 1 10 5 Null Null) (Node 3 30 4 Null Null)"

definition example_B :: "(nat, nat) node" where
  "example_B = Node 3 3000 2 (Node 2 2000 3 Null Null) (Node 4 4000 7 Null Null)"

definition example_C :: "(nat, nat) node" where
  "example_C = Node 5 50 3 Null (Node 6 60 8 Null Null)"

section \<open>The loop and the recursion agree\<close>

lemma store_append_right:
  "store (h @ [RightField]) w (store h (Node k x pr l Null) t) = store h (Node k x pr l w) t"
  by (induction h "Node k x pr l Null" t rule: store.induct) simp_all

lemma store_append_left:
  "store (h @ [LeftField]) w (store h (Node k x pr Null r) t) = store h (Node k x pr w r) t"
  by (induction h "Node k x pr Null r" t rule: store.induct) simp_all

lemma store_Null_same: "load h t = Some Null \<Longrightarrow> store h Null t = t"
  by (induction h t rule: load.induct) simp_all

lemma load_store_right:
  "load h t = Some Null \<Longrightarrow> load (h @ [RightField]) (store h (Node k x pr l Null) t) = Some Null"
  by (induction h t rule: load.induct) simp_all

lemma load_store_left:
  "load h t = Some Null \<Longrightarrow> load (h @ [LeftField]) (store h (Node k x pr Null r) t) = Some Null"
  by (induction h t rule: load.induct) simp_all

text \<open>
  The loop invariant: each hole addresses a slot of its result variable that still holds
  nil. Under it the loop returns what the recursion returns, stored into the holes.
\<close>

lemma split_while_split_rec:
  "load t1 result1 = Some Null \<Longrightarrow> load t2 result2 = Some Null \<Longrightarrow>
   split_while v key (result1, t1) (result2, t2) =
     (case split_rec v key of (r1, r2, a) \<Rightarrow> (store t1 r1 result1, store t2 r2 result2, a))"
proof (induction v arbitrary: result1 t1 result2 t2)
  case Null
  then show ?case by (simp add: store_Null_same)
next
  case (Node k x pr l r)
  show ?case
  proof (cases "k = key")
    case True
    then show ?thesis by simp
  next
    case False
    show ?thesis
    proof (cases "key < k")
      case True
      have "load (t2 @ [LeftField]) (store t2 (Node k x pr Null r) result2) = Some Null"
        using Node.prems(2) by (rule load_store_left)
      with Node.prems(1) have
        "split_while l key (result1, t1) (store t2 (Node k x pr Null r) result2, t2 @ [LeftField]) =
           (case split_rec l key of (r1, r2, a) \<Rightarrow>
              (store t1 r1 result1,
               store (t2 @ [LeftField]) r2 (store t2 (Node k x pr Null r) result2), a))"
        by (rule Node.IH(1))
      with True False show ?thesis
        by (simp add: store_append_left split: prod.splits)
    next
      case notless: False
      have "load (t1 @ [RightField]) (store t1 (Node k x pr l Null) result1) = Some Null"
        using Node.prems(1) by (rule load_store_right)
      from this Node.prems(2) have
        "split_while r key (store t1 (Node k x pr l Null) result1, t1 @ [RightField]) (result2, t2) =
           (case split_rec r key of (r1, r2, a) \<Rightarrow>
              (store (t1 @ [RightField]) r1 (store t1 (Node k x pr l Null) result1),
               store t2 r2 result2, a))"
        by (rule Node.IH(2))
      with notless False show ?thesis
        by (simp add: store_append_right split: prod.splits)
    qed
  qed
qed

lemma split_loop_split_rec: "split_loop v key = split_rec v key"
  by (simp add: split_loop_def split_while_split_rec split: prod.splits)

lemma split_split_rec: "split v key = split_rec v key"
  by (simp add: split_def split_loop_split_rec)

section \<open>Split never adds nodes\<close>

lemma split_rec_nodes:
  "split_rec v key = (r1, r2, a) \<Longrightarrow> nodes r1 \<le> nodes v \<and> nodes r2 \<le> nodes v"
  by (induction v arbitrary: r1 r2 a) (auto split: if_splits prod.splits)

lemma split_nodes:
  "split v key = (r1, r2, a) \<Longrightarrow> nodes r1 \<le> nodes v \<and> nodes r2 \<le> nodes v"
  by (simp add: split_split_rec split_rec_nodes)

section \<open>Union, intersection, difference\<close>

text \<open>\<^verbatim>\<open>union_helper\<close> (lines 213-259).\<close>

function union_helper :: "('k::linorder, 'v) node \<Rightarrow> ('k, 'v) node \<Rightarrow> ('k, 'v) node" where
  "union_helper Null v2 = v2"
| "union_helper (Node k1 x1 p1 l1 r1) Null = Node k1 x1 p1 l1 r1"
| "union_helper (Node k1 x1 p1 l1 r1) (Node k2 x2 p2 l2 r2) =
     (if p1 < p2 then
        (case split (Node k2 x2 p2 l2 r2) k1 of (t1, t2, a) \<Rightarrow>
           Node k1 x1 p1 (union_helper l1 t1) (union_helper r1 t2))
      else
        (case split (Node k1 x1 p1 l1 r1) k2 of (t1, t2, a) \<Rightarrow>
           Node k2 (case a of Null \<Rightarrow> x2 | Node ka xa pa la ra \<Rightarrow> xa) p2
             (union_helper t1 l2) (union_helper t2 r2)))"
  by pat_completeness auto
termination
proof (relation "measure (\<lambda>(v1, v2). nodes v1 + nodes v2)")
  show "wf (measure (\<lambda>(v1, v2). nodes v1 + nodes v2))" by simp
qed (auto dest!: split_nodes [OF sym])

text \<open>\<^verbatim>\<open>intersect_helper\<close> (lines 265-320).\<close>

function intersect_helper :: "('k::linorder, 'v) node \<Rightarrow> ('k, 'v) node \<Rightarrow> ('k, 'v) node" where
  "intersect_helper Null v2 = Null"
| "intersect_helper (Node k1 x1 p1 l1 r1) Null = Null"
| "intersect_helper (Node k1 x1 p1 l1 r1) (Node k2 x2 p2 l2 r2) =
     (if p1 < p2 then
        (case split (Node k2 x2 p2 l2 r2) k1 of (r1', r2', a) \<Rightarrow>
           (let left = intersect_helper l1 r1';
                right = intersect_helper r1 r2'
            in case a of
                 Null \<Rightarrow> join left right
               | Node ka xa pa la ra \<Rightarrow> Node k1 x1 p1 left right))
      else
        (case split (Node k1 x1 p1 l1 r1) k2 of (r1', r2', a) \<Rightarrow>
           (let left = intersect_helper r1' l2;
                right = intersect_helper r2' r2
            in case a of
                 Null \<Rightarrow> join left right
               | Node ka xa pa la ra \<Rightarrow> Node k2 xa p2 left right)))"
  by pat_completeness auto
termination
proof (relation "measure (\<lambda>(v1, v2). nodes v1 + nodes v2)")
  show "wf (measure (\<lambda>(v1, v2). nodes v1 + nodes v2))" by simp
qed (auto dest!: split_nodes [OF sym])

text \<open>
  \<^verbatim>\<open>difference_helper\<close> (lines 326-358). The pivot is always the root of \<^verbatim>\<open>v1\<close>: the
  priority test of the other two operations is commented out in the source.
\<close>

function difference_helper :: "('k::linorder, 'v) node \<Rightarrow> ('k, 'v) node \<Rightarrow> ('k, 'v) node" where
  "difference_helper Null v2 = Null"
| "difference_helper (Node k1 x1 p1 l1 r1) Null = Node k1 x1 p1 l1 r1"
| "difference_helper (Node k1 x1 p1 l1 r1) (Node k2 x2 p2 l2 r2) =
     (case split (Node k2 x2 p2 l2 r2) k1 of (r1', r2', a) \<Rightarrow>
        (let left = difference_helper l1 r1';
             right = difference_helper r1 r2'
         in case a of
              Null \<Rightarrow> Node k1 x1 p1 left right
            | Node ka xa pa la ra \<Rightarrow> join left right))"
  by pat_completeness auto
termination
proof (relation "measure (\<lambda>(v1, v2). nodes v1 + nodes v2)")
  show "wf (measure (\<lambda>(v1, v2). nodes v1 + nodes v2))" by simp
qed (auto dest!: split_nodes [OF sym])

section \<open>The public operations\<close>

text \<open>
  The constructors (lines 381-389). The second one draws the priority of its node from
  \<^verbatim>\<open>rand()\<close>; the number drawn is the parameter \<open>rnd\<close>.
\<close>

definition empty_PersistTreap :: "('k, 'v) PersistTreap" where
  "empty_PersistTreap = \<lparr>root = Null\<rparr>"

definition new_PersistTreap :: "'k \<Rightarrow> 'v \<Rightarrow> int \<Rightarrow> ('k, 'v) PersistTreap" where
  "new_PersistTreap key val rnd = \<lparr>root = Node key val rnd Null Null\<rparr>"

definition treap_union :: "('k::linorder, 'v) PersistTreap \<Rightarrow> ('k, 'v) PersistTreap \<Rightarrow> ('k, 'v) PersistTreap" where
  "treap_union treap1 treap2 = \<lparr>root = union_helper (root treap1) (root treap2)\<rparr>"

definition intersection :: "('k::linorder, 'v) PersistTreap \<Rightarrow> ('k, 'v) PersistTreap \<Rightarrow> ('k, 'v) PersistTreap" where
  "intersection treap1 treap2 = \<lparr>root = intersect_helper (root treap1) (root treap2)\<rparr>"

definition difference :: "('k::linorder, 'v) PersistTreap \<Rightarrow> ('k, 'v) PersistTreap \<Rightarrow> ('k, 'v) PersistTreap" where
  "difference treap1 treap2 = \<lparr>root = difference_helper (root treap1) (root treap2)\<rparr>"

text \<open>
  \<^verbatim>\<open>insert\<close> and \<^verbatim>\<open>remove\<close> (lines 412-418), on the treap \<^verbatim>\<open>*this\<close>. \<^verbatim>\<open>remove\<close> builds its
  one-node operand with the value \<^verbatim>\<open>NULL\<close> converted to \<^verbatim>\<open>Tval\<close>: the parameter
  \<open>placeholder\<close>.
\<close>

definition insert_treap :: "('k::linorder, 'v) PersistTreap \<Rightarrow> 'k \<Rightarrow> 'v \<Rightarrow> int \<Rightarrow> ('k, 'v) PersistTreap" where
  "insert_treap this key val rnd = treap_union (new_PersistTreap key val rnd) this"

definition remove_treap :: "('k::linorder, 'v) PersistTreap \<Rightarrow> 'k \<Rightarrow> 'v \<Rightarrow> int \<Rightarrow> ('k, 'v) PersistTreap" where
  "remove_treap this key placeholder rnd = difference this (new_PersistTreap key placeholder rnd)"

section \<open>Contents of the results of split\<close>

lemma keys_traverse: "keys t = fst ` set (traverse t)"
  by (induction t) auto

lemma filter_less_all:
  "\<forall>k' \<in> keys t. k' < key \<Longrightarrow> filter (\<lambda>(k, x). k < key) (traverse t) = traverse t"
  by (rule filter_True) (auto simp: keys_traverse)

lemma filter_less_none:
  "\<forall>k' \<in> keys t. \<not> k' < key \<Longrightarrow> filter (\<lambda>(k, x). k < key) (traverse t) = []"
  by (auto simp: keys_traverse filter_empty_conv)

lemma filter_greater_all:
  "\<forall>k' \<in> keys t. key < k' \<Longrightarrow> filter (\<lambda>(k, x). key < k) (traverse t) = traverse t"
  by (rule filter_True) (auto simp: keys_traverse)

lemma filter_greater_none:
  "\<forall>k' \<in> keys t. \<not> key < k' \<Longrightarrow> filter (\<lambda>(k, x). key < k) (traverse t) = []"
  by (auto simp: keys_traverse filter_empty_conv)

lemma split_rec_traverse:
  "bst v \<Longrightarrow> split_rec v key = (r1, r2, a) \<Longrightarrow>
   traverse r1 = filter (\<lambda>(k, x). k < key) (traverse v) \<and>
   traverse r2 = filter (\<lambda>(k, x). key < k) (traverse v)"
proof (induction v arbitrary: r1 r2 a)
  case Null
  then show ?case by simp
next
  case (Node k x pr l r)
  from Node.prems(1) have bl: "bst l" and br: "bst r"
    and ll: "\<forall>k' \<in> keys l. k' < k" and rr: "\<forall>k' \<in> keys r. k < k'" by simp_all
  show ?case
  proof (cases "k = key")
    case True
    with Node.prems(2) have "r1 = l" "r2 = r" by simp_all
    moreover from True ll have "filter (\<lambda>(k, x). k < key) (traverse l) = traverse l"
      by (intro filter_less_all) simp
    moreover from True rr have "filter (\<lambda>(k, x). k < key) (traverse r) = []"
      by (intro filter_less_none) auto
    moreover from True ll have "filter (\<lambda>(k, x). key < k) (traverse l) = []"
      by (intro filter_greater_none) auto
    moreover from True rr have "filter (\<lambda>(k, x). key < k) (traverse r) = traverse r"
      by (intro filter_greater_all) simp
    ultimately show ?thesis using True by simp
  next
    case False
    show ?thesis
    proof (cases "key < k")
      case True
      obtain s1 s2 b where s: "split_rec l key = (s1, s2, b)" by (cases "split_rec l key") auto
      with Node.prems(2) True False have r: "r1 = s1" "r2 = Node k x pr s2 r" by simp_all
      from Node.IH(1) [OF bl s] have
        ih: "traverse s1 = filter (\<lambda>(k, x). k < key) (traverse l)"
            "traverse s2 = filter (\<lambda>(k, x). key < k) (traverse l)" by simp_all
      from True rr have "filter (\<lambda>(k, x). k < key) (traverse r) = []"
        by (intro filter_less_none) auto
      moreover from True rr have "filter (\<lambda>(k, x). key < k) (traverse r) = traverse r"
        by (intro filter_greater_all) auto
      ultimately show ?thesis using True False r ih by simp
    next
      case notless: False
      with False have gt: "k < key" by simp
      obtain s1 s2 b where s: "split_rec r key = (s1, s2, b)" by (cases "split_rec r key") auto
      with Node.prems(2) notless False have r: "r1 = Node k x pr l s1" "r2 = s2" by simp_all
      from Node.IH(2) [OF br s] have
        ih: "traverse s1 = filter (\<lambda>(k, x). k < key) (traverse r)"
            "traverse s2 = filter (\<lambda>(k, x). key < k) (traverse r)" by simp_all
      from gt ll have "filter (\<lambda>(k, x). k < key) (traverse l) = traverse l"
        by (intro filter_less_all) auto
      moreover from gt ll have "filter (\<lambda>(k, x). key < k) (traverse l) = []"
        by (intro filter_greater_none) auto
      ultimately show ?thesis using gt notless False r ih by simp
    qed
  qed
qed

lemma split_rec_keys:
  assumes "bst v" "split_rec v key = (r1, r2, a)"
  shows "keys r1 = {k \<in> keys v. k < key}" "keys r2 = {k \<in> keys v. key < k}"
  using split_rec_traverse [OF assms] by (auto simp: keys_traverse)

lemma split_rec_bst:
  "bst v \<Longrightarrow> split_rec v key = (r1, r2, a) \<Longrightarrow> bst r1 \<and> bst r2"
proof (induction v arbitrary: r1 r2 a)
  case Null
  then show ?case by simp
next
  case (Node k x pr l r)
  from Node.prems(1) have bl: "bst l" and br: "bst r"
    and ll: "\<forall>k' \<in> keys l. k' < k" and rr: "\<forall>k' \<in> keys r. k < k'" by simp_all
  show ?case
  proof (cases "k = key")
    case True
    with Node.prems(2) bl br show ?thesis by simp
  next
    case False
    show ?thesis
    proof (cases "key < k")
      case True
      obtain s1 s2 b where s: "split_rec l key = (s1, s2, b)" by (cases "split_rec l key") auto
      with Node.prems(2) True False have r: "r1 = s1" "r2 = Node k x pr s2 r" by simp_all
      from Node.IH(1) [OF bl s] split_rec_keys(2) [OF bl s] ll rr br r
      show ?thesis by simp
    next
      case notless: False
      obtain s1 s2 b where s: "split_rec r key = (s1, s2, b)" by (cases "split_rec r key") auto
      with Node.prems(2) notless False have r: "r1 = Node k x pr l s1" "r2 = s2" by simp_all
      from Node.IH(2) [OF br s] split_rec_keys(1) [OF br s] ll rr bl r
      show ?thesis by simp
    qed
  qed
qed

lemma lookup_Null: "lookup Null k' = None"
  by (simp add: lookup_def)

lemma lookup_None_iff: "lookup t k' = None \<longleftrightarrow> k' \<notin> keys t"
  by (simp add: lookup_def map_of_eq_None_iff keys_traverse)

lemma lookup_Node:
  assumes "bst (Node k x pr l r)"
  shows "lookup (Node k x pr l r) k' =
           (if k' = k then Some x else if k' < k then lookup l k' else lookup r k')"
proof -
  from assms have ll: "\<forall>k'' \<in> keys l. k'' < k" and rr: "\<forall>k'' \<in> keys r. k < k''" by simp_all
  have 1: "lookup l k = None" using ll by (auto simp: lookup_None_iff)
  have 2: "k' < k \<Longrightarrow> lookup r k' = None" using rr by (auto simp: lookup_None_iff)
  have 3: "\<not> k' < k \<Longrightarrow> lookup l k' = None" using ll by (auto simp: lookup_None_iff)
  show ?thesis
    using 1 2 3 by (auto simp: map_add_def lookup_def split: option.splits)
qed

lemma map_of_filter_key:
  "map_of (filter (\<lambda>(k, x). Q k) xs) k' = (if Q k' then map_of xs k' else None)"
  by (induction xs) auto

lemma split_rec_lookup:
  assumes "bst v" "split_rec v key = (r1, r2, a)"
  shows "lookup r1 k' = (if k' < key then lookup v k' else None)"
    and "lookup r2 k' = (if key < k' then lookup v k' else None)"
  using split_rec_traverse [OF assms] by (simp_all add: lookup_def map_of_filter_key)

lemma split_rec_matched:
  "bst v \<Longrightarrow> split_rec v key = (r1, r2, a) \<Longrightarrow>
   (case a of Null \<Rightarrow> key \<notin> keys v
    | Node ka xa pa la ra \<Rightarrow> ka = key \<and> a \<in> reachable v \<and> lookup v key = Some xa)"
proof (induction v arbitrary: r1 r2 a)
  case Null
  then show ?case by simp
next
  case (Node k x pr l r)
  from Node.prems(1) have bl: "bst l" and br: "bst r"
    and ll: "\<forall>k' \<in> keys l. k' < k" and rr: "\<forall>k' \<in> keys r. k < k'" by simp_all
  show ?case
  proof (cases "k = key")
    case True
    with Node.prems(2) have "a = Node k x pr l r" by auto
    with True Node.prems(1) show ?thesis by (simp add: lookup_Node)
  next
    case False
    show ?thesis
    proof (cases "key < k")
      case True
      obtain s1 s2 b where s: "split_rec l key = (s1, s2, b)" by (cases "split_rec l key") auto
      with Node.prems(2) True False have r: "a = b" by simp
      from True rr have "key \<notin> keys r" by auto
      with Node.IH(1) [OF bl s] r True False Node.prems(1) show ?thesis
        by (auto simp: lookup_Node split: node.splits)
    next
      case notless: False
      obtain s1 s2 b where s: "split_rec r key = (s1, s2, b)" by (cases "split_rec r key") auto
      with Node.prems(2) notless False have r: "a = b" by simp
      from notless False ll have "key \<notin> keys l" by auto
      with Node.IH(2) [OF br s] r notless False Node.prems(1) show ?thesis
        by (auto simp: lookup_Node split: node.splits)
    qed
  qed
qed

section \<open>Heap order\<close>

lemma all_ge_Null: "all_ge q Null"
  by (simp add: all_ge_def)

lemma all_ge_Node: "all_ge q (Node k x pr l r) = (q \<le> pr \<and> all_ge q l \<and> all_ge q r)"
  by (auto simp: all_ge_def)

lemma all_ge_mono: "all_ge q t \<Longrightarrow> q' \<le> q \<Longrightarrow> all_ge q' t"
  by (auto simp: all_ge_def)

lemma all_ge_subset: "all_ge q t \<Longrightarrow> prios s \<subseteq> prios t \<Longrightarrow> all_ge q s"
  by (auto simp: all_ge_def)

lemma all_ge_union: "all_ge q t \<Longrightarrow> all_ge q u \<Longrightarrow> prios s \<subseteq> prios t \<union> prios u \<Longrightarrow> all_ge q s"
  by (auto simp: all_ge_def)

lemma all_ge_root_le: "all_ge q t \<Longrightarrow> root_le q t"
  by (cases t) (simp_all add: all_ge_Node)

lemma heap_all_ge: "heap t \<Longrightarrow> root_le q t \<Longrightarrow> all_ge q t"
proof (induction t arbitrary: q)
  case Null
  show ?case by (rule all_ge_Null)
next
  case (Node k x pr l r)
  from Node.prems have "q \<le> pr" "heap l" "heap r" "root_le pr l" "root_le pr r" by simp_all
  with Node.IH [of pr] have "all_ge pr l" "all_ge pr r" by simp_all
  with \<open>q \<le> pr\<close> show ?case by (simp add: all_ge_Node all_ge_mono)
qed

lemma heap_Node_iff:
  "heap (Node k x pr l r) = (heap l \<and> heap r \<and> all_ge pr l \<and> all_ge pr r)"
  using heap_all_ge all_ge_root_le by auto

lemma split_rec_prios:
  "split_rec v key = (r1, r2, a) \<Longrightarrow> prios r1 \<subseteq> prios v \<and> prios r2 \<subseteq> prios v"
  by (induction v arbitrary: r1 r2 a) (auto split: if_splits prod.splits)

lemma split_rec_heap:
  "heap v \<Longrightarrow> split_rec v key = (r1, r2, a) \<Longrightarrow> heap r1 \<and> heap r2"
proof (induction v arbitrary: r1 r2 a)
  case Null
  then show ?case by simp
next
  case (Node k x pr l r)
  from Node.prems(1) have hl: "heap l" and hr: "heap r"
    and gl: "all_ge pr l" and gr: "all_ge pr r" by (simp_all add: heap_Node_iff del: heap.simps)
  show ?case
  proof (cases "k = key")
    case True
    with Node.prems(2) hl hr show ?thesis by auto
  next
    case False
    show ?thesis
    proof (cases "key < k")
      case True
      obtain s1 s2 b where s: "split_rec l key = (s1, s2, b)" by (cases "split_rec l key") auto
      with Node.prems(2) True False have r: "r1 = s1" "r2 = Node k x pr s2 r" by simp_all
      from split_rec_prios [OF s] gl have "all_ge pr s2" by (auto intro: all_ge_subset)
      with Node.IH(1) [OF hl s] hr gr r show ?thesis by (simp add: heap_Node_iff del: heap.simps)
    next
      case notless: False
      obtain s1 s2 b where s: "split_rec r key = (s1, s2, b)" by (cases "split_rec r key") auto
      with Node.prems(2) notless False have r: "r1 = Node k x pr l s1" "r2 = s2" by simp_all
      from split_rec_prios [OF s] gr have "all_ge pr s1" by (auto intro: all_ge_subset)
      with Node.IH(2) [OF hr s] hl gl r show ?thesis by (simp add: heap_Node_iff del: heap.simps)
    qed
  qed
qed

section \<open>Facts about join\<close>

lemma traverse_join: "traverse (join v1 v2) = traverse v1 @ traverse v2"
  by (induction v1 v2 rule: join.induct) simp_all

lemma keys_join: "keys (join v1 v2) = keys v1 \<union> keys v2"
  by (simp add: keys_traverse traverse_join image_Un)

lemma prios_join: "prios (join v1 v2) = prios v1 \<union> prios v2"
  by (induction v1 v2 rule: join.induct) auto

lemma bst_join:
  "bst v1 \<Longrightarrow> bst v2 \<Longrightarrow> \<forall>x \<in> keys v1. \<forall>y \<in> keys v2. x < y \<Longrightarrow> bst (join v1 v2)"
proof (induction v1 v2 rule: join.induct)
  case (3 k1 x1 p1 l1 r1 k2 x2 p2 l2 r2)
  show ?case
  proof (cases "p1 < p2")
    case True
    from "3.prems" have "bst (join r1 (Node k2 x2 p2 l2 r2))"
      by (intro "3.IH"(1) [OF True]) auto
    with True "3.prems" show ?thesis by (auto simp: keys_join)
  next
    case False
    from "3.prems" have "bst (join (Node k1 x1 p1 l1 r1) l2)"
      by (intro "3.IH"(2) [OF False]) auto
    with False "3.prems" show ?thesis by (auto simp: keys_join)
  qed
qed simp_all

lemma heap_join: "heap v1 \<Longrightarrow> heap v2 \<Longrightarrow> heap (join v1 v2)"
proof (induction v1 v2 rule: join.induct)
  case (3 k1 x1 p1 l1 r1 k2 x2 p2 l2 r2)
  let ?v1 = "Node k1 x1 p1 l1 r1" and ?v2 = "Node k2 x2 p2 l2 r2"
  from "3.prems" have h1: "heap l1" "heap r1" "all_ge p1 l1" "all_ge p1 r1"
    and h2: "heap l2" "heap r2" "all_ge p2 l2" "all_ge p2 r2" by (simp_all add: heap_Node_iff del: heap.simps)
  show ?case
  proof (cases "p1 < p2")
    case True
    have "heap (join r1 ?v2)" using "3.prems" h1 by (intro "3.IH"(1) [OF True])
    moreover have "all_ge p1 ?v2" using True h2 by (simp add: all_ge_Node all_ge_mono)
    then have "all_ge p1 (join r1 ?v2)" using h1(4) by (auto simp: all_ge_def prios_join)
    ultimately show ?thesis using True h1 by (simp add: heap_Node_iff del: heap.simps)
  next
    case False
    have "heap (join ?v1 l2)" using "3.prems" h2 by (intro "3.IH"(2) [OF False])
    moreover have "all_ge p2 ?v1" using False h1 by (simp add: all_ge_Node all_ge_mono)
    then have "all_ge p2 (join ?v1 l2)" using h2(3) by (auto simp: all_ge_def prios_join)
    ultimately show ?thesis using False h2 by (simp add: heap_Node_iff del: heap.simps)
  qed
qed simp_all

section \<open>Induction rules for the set operations, and union\<close>

lemma split_cases:
  obtains t1 t2 a where "split v key = (t1, t2, a)"
  by (cases "split v key") auto

lemma split_bst: "bst v \<Longrightarrow> split v key = (r1, r2, a) \<Longrightarrow> bst r1 \<and> bst r2"
  unfolding split_split_rec by (rule split_rec_bst)

lemma split_keys:
  assumes "bst v" "split v key = (r1, r2, a)"
  shows "keys r1 = {k \<in> keys v. k < key}" "keys r2 = {k \<in> keys v. key < k}"
  using assms unfolding split_split_rec by (rule split_rec_keys)+

lemma split_lookup:
  assumes "bst v" "split v key = (r1, r2, a)"
  shows "lookup r1 k' = (if k' < key then lookup v k' else None)"
    and "lookup r2 k' = (if key < k' then lookup v k' else None)"
  using assms unfolding split_split_rec by (rule split_rec_lookup)+

lemma split_matched:
  "bst v \<Longrightarrow> split v key = (r1, r2, a) \<Longrightarrow>
   (case a of Null \<Rightarrow> key \<notin> keys v
    | Node ka xa pa la ra \<Rightarrow> ka = key \<and> a \<in> reachable v \<and> lookup v key = Some xa)"
  unfolding split_split_rec by (rule split_rec_matched)

lemma split_prios:
  "split v key = (r1, r2, a) \<Longrightarrow> prios r1 \<subseteq> prios v \<and> prios r2 \<subseteq> prios v"
  unfolding split_split_rec by (rule split_rec_prios)

lemma split_heap: "heap v \<Longrightarrow> split v key = (r1, r2, a) \<Longrightarrow> heap r1 \<and> heap r2"
  unfolding split_split_rec by (rule split_rec_heap)

text \<open>
  The recursion of \<open>union_helper\<close> and of \<open>intersect_helper\<close>: the root with the
  smaller priority is the pivot, the other operand is split around its key.
\<close>

lemma pivot_induct [case_names Null1 Null2 Less NotLess]:
  fixes P :: "('k::linorder, 'v) node \<Rightarrow> ('k, 'v) node \<Rightarrow> bool"
  assumes "\<And>v2. P Null v2"
    and "\<And>k1 x1 p1 l1 r1. P (Node k1 x1 p1 l1 r1) Null"
    and "\<And>k1 x1 p1 l1 r1 k2 x2 p2 l2 r2 t1 t2 a.
           p1 < p2 \<Longrightarrow> split (Node k2 x2 p2 l2 r2) k1 = (t1, t2, a) \<Longrightarrow>
           P l1 t1 \<Longrightarrow> P r1 t2 \<Longrightarrow> P (Node k1 x1 p1 l1 r1) (Node k2 x2 p2 l2 r2)"
    and "\<And>k1 x1 p1 l1 r1 k2 x2 p2 l2 r2 t1 t2 a.
           \<not> p1 < p2 \<Longrightarrow> split (Node k1 x1 p1 l1 r1) k2 = (t1, t2, a) \<Longrightarrow>
           P t1 l2 \<Longrightarrow> P t2 r2 \<Longrightarrow> P (Node k1 x1 p1 l1 r1) (Node k2 x2 p2 l2 r2)"
  shows "P v1 v2"
proof (induction v1 v2 rule: union_helper.induct)
  case (1 v2)
  show ?case by (rule assms(1))
next
  case (2 k1 x1 p1 l1 r1)
  show ?case by (rule assms(2))
next
  case (3 k1 x1 p1 l1 r1 k2 x2 p2 l2 r2)
  show ?case
  proof (cases "p1 < p2")
    case True
    obtain t1 t2 a where s: "split (Node k2 x2 p2 l2 r2) k1 = (t1, t2, a)" by (rule split_cases)
    from True s "3.IH"(1) [OF True s [symmetric] refl] "3.IH"(2) [OF True s [symmetric] refl]
    show ?thesis by (rule assms(3))
  next
    case False
    obtain t1 t2 a where s: "split (Node k1 x1 p1 l1 r1) k2 = (t1, t2, a)" by (rule split_cases)
    from False s "3.IH"(3) [OF False s [symmetric] refl] "3.IH"(4) [OF False s [symmetric] refl]
    show ?thesis by (rule assms(4))
  qed
qed

text \<open>The recursion of \<open>difference_helper\<close>: the pivot is the root of the first operand.\<close>

lemma difference_induct [case_names Null1 Null2 Pivot]:
  fixes P :: "('k::linorder, 'v) node \<Rightarrow> ('k, 'v) node \<Rightarrow> bool"
  assumes "\<And>v2. P Null v2"
    and "\<And>k1 x1 p1 l1 r1. P (Node k1 x1 p1 l1 r1) Null"
    and "\<And>k1 x1 p1 l1 r1 k2 x2 p2 l2 r2 t1 t2 a.
           split (Node k2 x2 p2 l2 r2) k1 = (t1, t2, a) \<Longrightarrow>
           P l1 t1 \<Longrightarrow> P r1 t2 \<Longrightarrow> P (Node k1 x1 p1 l1 r1) (Node k2 x2 p2 l2 r2)"
  shows "P v1 v2"
proof (induction v1 v2 rule: difference_helper.induct)
  case (1 v2)
  show ?case by (rule assms(1))
next
  case (2 k1 x1 p1 l1 r1)
  show ?case by (rule assms(2))
next
  case (3 k1 x1 p1 l1 r1 k2 x2 p2 l2 r2)
  obtain t1 t2 a where s: "split (Node k2 x2 p2 l2 r2) k1 = (t1, t2, a)" by (rule split_cases)
  from s "3.IH"(1) [OF s [symmetric] refl] "3.IH"(2) [OF s [symmetric] refl refl]
  show ?case by (rule assms(3))
qed

lemma union_helper_Less:
  "p1 < p2 \<Longrightarrow> split (Node k2 x2 p2 l2 r2) k1 = (t1, t2, a) \<Longrightarrow>
   union_helper (Node k1 x1 p1 l1 r1) (Node k2 x2 p2 l2 r2) =
     Node k1 x1 p1 (union_helper l1 t1) (union_helper r1 t2)"
  by simp

lemma union_helper_NotLess:
  "\<not> p1 < p2 \<Longrightarrow> split (Node k1 x1 p1 l1 r1) k2 = (t1, t2, a) \<Longrightarrow>
   union_helper (Node k1 x1 p1 l1 r1) (Node k2 x2 p2 l2 r2) =
     Node k2 (case a of Null \<Rightarrow> x2 | Node ka xa pa la ra \<Rightarrow> xa) p2
       (union_helper t1 l2) (union_helper t2 r2)"
  by simp

lemma intersect_helper_Less:
  "p1 < p2 \<Longrightarrow> split (Node k2 x2 p2 l2 r2) k1 = (t1, t2, a) \<Longrightarrow>
   intersect_helper (Node k1 x1 p1 l1 r1) (Node k2 x2 p2 l2 r2) =
     (case a of Null \<Rightarrow> join (intersect_helper l1 t1) (intersect_helper r1 t2)
      | Node ka xa pa la ra \<Rightarrow> Node k1 x1 p1 (intersect_helper l1 t1) (intersect_helper r1 t2))"
  by (simp add: Let_def)

lemma intersect_helper_NotLess:
  "\<not> p1 < p2 \<Longrightarrow> split (Node k1 x1 p1 l1 r1) k2 = (t1, t2, a) \<Longrightarrow>
   intersect_helper (Node k1 x1 p1 l1 r1) (Node k2 x2 p2 l2 r2) =
     (case a of Null \<Rightarrow> join (intersect_helper t1 l2) (intersect_helper t2 r2)
      | Node ka xa pa la ra \<Rightarrow> Node k2 xa p2 (intersect_helper t1 l2) (intersect_helper t2 r2))"
  by (simp add: Let_def)

lemma difference_helper_Pivot:
  "split (Node k2 x2 p2 l2 r2) k1 = (t1, t2, a) \<Longrightarrow>
   difference_helper (Node k1 x1 p1 l1 r1) (Node k2 x2 p2 l2 r2) =
     (case a of Null \<Rightarrow> Node k1 x1 p1 (difference_helper l1 t1) (difference_helper r1 t2)
      | Node ka xa pa la ra \<Rightarrow> join (difference_helper l1 t1) (difference_helper r1 t2))"
  by (simp add: Let_def)

lemma split_keys_cover:
  assumes "bst v" "split v key = (t1, t2, a)"
  shows "keys t1 \<union> keys t2 \<union> {key} = keys v \<union> {key}"
  using split_keys [OF assms] by auto

lemma union_helper_bst_keys:
  "bst v1 \<Longrightarrow> bst v2 \<Longrightarrow>
   bst (union_helper v1 v2) \<and> keys (union_helper v1 v2) = keys v1 \<union> keys v2"
proof (induction v1 v2 rule: pivot_induct)
  case (Null1 v2)
  then show ?case by simp
next
  case (Null2 k1 x1 p1 l1 r1)
  then show ?case by simp
next
  case (Less k1 x1 p1 l1 r1 k2 x2 p2 l2 r2 t1 t2 a)
  let ?v2 = "Node k2 x2 p2 l2 r2"
  from Less.prems(1) have b1: "bst l1" "bst r1"
    and o1: "\<forall>k' \<in> keys l1. k' < k1" "\<forall>k' \<in> keys r1. k1 < k'" by simp_all
  from split_bst [OF Less.prems(2) Less.hyps(2)] have b2: "bst t1" "bst t2" by simp_all
  note ks = split_keys [OF Less.prems(2) Less.hyps(2)]
  from Less.IH(1) [OF b1(1) b2(1)] have l: "bst (union_helper l1 t1)"
    "keys (union_helper l1 t1) = keys l1 \<union> keys t1" by simp_all
  from Less.IH(2) [OF b1(2) b2(2)] have r: "bst (union_helper r1 t2)"
    "keys (union_helper r1 t2) = keys r1 \<union> keys t2" by simp_all
  have u: "union_helper (Node k1 x1 p1 l1 r1) ?v2 =
      Node k1 x1 p1 (union_helper l1 t1) (union_helper r1 t2)"
    using Less.hyps by (rule union_helper_Less)
  have "bst (Node k1 x1 p1 (union_helper l1 t1) (union_helper r1 t2))"
    using l r o1 ks by auto
  moreover have "keys (Node k1 x1 p1 (union_helper l1 t1) (union_helper r1 t2)) =
      keys (Node k1 x1 p1 l1 r1) \<union> keys ?v2"
    using l(2) r(2) split_keys_cover [OF Less.prems(2) Less.hyps(2)] by auto
  ultimately show ?case unfolding u by simp
next
  case (NotLess k1 x1 p1 l1 r1 k2 x2 p2 l2 r2 t1 t2 a)
  let ?v1 = "Node k1 x1 p1 l1 r1"
  let ?x = "case a of Null \<Rightarrow> x2 | Node ka xa pa la ra \<Rightarrow> xa"
  from NotLess.prems(2) have b2: "bst l2" "bst r2"
    and o2: "\<forall>k' \<in> keys l2. k' < k2" "\<forall>k' \<in> keys r2. k2 < k'" by simp_all
  from split_bst [OF NotLess.prems(1) NotLess.hyps(2)] have b1: "bst t1" "bst t2" by simp_all
  note ks = split_keys [OF NotLess.prems(1) NotLess.hyps(2)]
  from NotLess.IH(1) [OF b1(1) b2(1)] have l: "bst (union_helper t1 l2)"
    "keys (union_helper t1 l2) = keys t1 \<union> keys l2" by simp_all
  from NotLess.IH(2) [OF b1(2) b2(2)] have r: "bst (union_helper t2 r2)"
    "keys (union_helper t2 r2) = keys t2 \<union> keys r2" by simp_all
  have u: "union_helper ?v1 (Node k2 x2 p2 l2 r2) =
      Node k2 ?x p2 (union_helper t1 l2) (union_helper t2 r2)"
    using NotLess.hyps by (rule union_helper_NotLess)
  have "bst (Node k2 ?x p2 (union_helper t1 l2) (union_helper t2 r2))"
    using l r o2 ks by auto
  moreover have "keys (Node k2 ?x p2 (union_helper t1 l2) (union_helper t2 r2)) =
      keys ?v1 \<union> keys (Node k2 x2 p2 l2 r2)"
    using l(2) r(2) split_keys_cover [OF NotLess.prems(1) NotLess.hyps(2)] by auto
  ultimately show ?case unfolding u by simp
qed

lemma split_matched_lookup:
  assumes "bst v" "split v key = (t1, t2, a)"
  shows "lookup v key = (case a of Null \<Rightarrow> None | Node ka xa pa la ra \<Rightarrow> Some xa)"
  using split_matched [OF assms] by (cases a) (simp_all add: lookup_None_iff)

lemma union_helper_lookup:
  "bst v1 \<Longrightarrow> bst v2 \<Longrightarrow>
   lookup (union_helper v1 v2) k' =
     (case lookup v1 k' of Some x \<Rightarrow> Some x | None \<Rightarrow> lookup v2 k')"
proof (induction v1 v2 rule: pivot_induct)
  case (Null1 v2)
  then show ?case by (simp add: lookup_Null)
next
  case (Null2 k1 x1 p1 l1 r1)
  then show ?case by (simp add: lookup_Null split: option.splits)
next
  case (Less k1 x1 p1 l1 r1 k2 x2 p2 l2 r2 t1 t2 a)
  let ?v1 = "Node k1 x1 p1 l1 r1" and ?v2 = "Node k2 x2 p2 l2 r2"
  from Less.prems(1) have b1: "bst l1" "bst r1" by simp_all
  from split_bst [OF Less.prems(2) Less.hyps(2)] have b2: "bst t1" "bst t2" by simp_all
  note sl = split_lookup [OF Less.prems(2) Less.hyps(2)]
  have u: "union_helper ?v1 ?v2 = Node k1 x1 p1 (union_helper l1 t1) (union_helper r1 t2)"
    using Less.hyps by (rule union_helper_Less)
  have "bst (union_helper ?v1 ?v2)"
    using union_helper_bst_keys [OF Less.prems] by simp
  then have "lookup (union_helper ?v1 ?v2) k' =
      (if k' = k1 then Some x1 else if k' < k1 then lookup (union_helper l1 t1) k'
       else lookup (union_helper r1 t2) k')"
    unfolding u by (rule lookup_Node)
  also have "\<dots> = (case lookup ?v1 k' of Some x \<Rightarrow> Some x | None \<Rightarrow> lookup ?v2 k')"
    by (auto simp: Less.IH(1) [OF b1(1) b2(1)] Less.IH(2) [OF b1(2) b2(2)] sl
        lookup_Node [OF Less.prems(1)] split: option.splits)
  finally show ?case .
next
  case (NotLess k1 x1 p1 l1 r1 k2 x2 p2 l2 r2 t1 t2 a)
  let ?v1 = "Node k1 x1 p1 l1 r1" and ?v2 = "Node k2 x2 p2 l2 r2"
  let ?x = "case a of Null \<Rightarrow> x2 | Node ka xa pa la ra \<Rightarrow> xa"
  from NotLess.prems(2) have b2: "bst l2" "bst r2" by simp_all
  from split_bst [OF NotLess.prems(1) NotLess.hyps(2)] have b1: "bst t1" "bst t2" by simp_all
  note sl = split_lookup [OF NotLess.prems(1) NotLess.hyps(2)]
  note sm = split_matched_lookup [OF NotLess.prems(1) NotLess.hyps(2)]
  have u: "union_helper ?v1 ?v2 = Node k2 ?x p2 (union_helper t1 l2) (union_helper t2 r2)"
    using NotLess.hyps by (rule union_helper_NotLess)
  have "bst (union_helper ?v1 ?v2)"
    using union_helper_bst_keys [OF NotLess.prems] by simp
  then have "lookup (union_helper ?v1 ?v2) k' =
      (if k' = k2 then Some ?x else if k' < k2 then lookup (union_helper t1 l2) k'
       else lookup (union_helper t2 r2) k')"
    unfolding u by (rule lookup_Node)
  also have "\<dots> = (case lookup ?v1 k' of Some x \<Rightarrow> Some x | None \<Rightarrow> lookup ?v2 k')"
  proof (cases "k' = k2")
    case True
    then show ?thesis
      by (cases a) (simp_all add: sm lookup_Node [OF NotLess.prems(2)])
  next
    case False
    then show ?thesis
      by (auto simp: NotLess.IH(1) [OF b1(1) b2(1)] NotLess.IH(2) [OF b1(2) b2(2)] sl
          lookup_Node [OF NotLess.prems(2)] split: option.splits)
  qed
  finally show ?case .
qed

lemma union_helper_prios: "prios (union_helper v1 v2) \<subseteq> prios v1 \<union> prios v2"
proof (induction v1 v2 rule: pivot_induct)
  case (Less k1 x1 p1 l1 r1 k2 x2 p2 l2 r2 t1 t2 a)
  from split_prios [OF Less.hyps(2)] Less.IH show ?case
    unfolding union_helper_Less [OF Less.hyps] by auto
next
  case (NotLess k1 x1 p1 l1 r1 k2 x2 p2 l2 r2 t1 t2 a)
  from split_prios [OF NotLess.hyps(2)] NotLess.IH show ?case
    unfolding union_helper_NotLess [OF NotLess.hyps] by auto
qed simp_all

lemma union_helper_heap: "heap v1 \<Longrightarrow> heap v2 \<Longrightarrow> heap (union_helper v1 v2)"
proof (induction v1 v2 rule: pivot_induct)
  case (Less k1 x1 p1 l1 r1 k2 x2 p2 l2 r2 t1 t2 a)
  let ?v2 = "Node k2 x2 p2 l2 r2"
  from Less.prems(1) have h1: "heap l1" "heap r1" "all_ge p1 l1" "all_ge p1 r1"
    by (simp_all add: heap_Node_iff del: heap.simps)
  from split_heap [OF Less.prems(2) Less.hyps(2)] have h2: "heap t1" "heap t2" by simp_all
  have g0: "all_ge p2 ?v2" using Less.prems(2) by (rule heap_all_ge) simp
  have g2: "all_ge p1 ?v2" by (rule all_ge_mono [OF g0]) (use Less.hyps(1) in simp)
  have g: "all_ge p1 t1" "all_ge p1 t2"
    using g2 split_prios [OF Less.hyps(2)] by (simp_all add: all_ge_subset)
  have "all_ge p1 (union_helper l1 t1)"
    using h1(3) g(1) union_helper_prios by (rule all_ge_union)
  moreover have "all_ge p1 (union_helper r1 t2)"
    using h1(4) g(2) union_helper_prios by (rule all_ge_union)
  ultimately show ?case
    unfolding union_helper_Less [OF Less.hyps]
    using Less.IH(1) [OF h1(1) h2(1)] Less.IH(2) [OF h1(2) h2(2)]
    by (simp add: heap_Node_iff del: heap.simps)
next
  case (NotLess k1 x1 p1 l1 r1 k2 x2 p2 l2 r2 t1 t2 a)
  let ?v1 = "Node k1 x1 p1 l1 r1"
  from NotLess.prems(2) have h2: "heap l2" "heap r2" "all_ge p2 l2" "all_ge p2 r2"
    by (simp_all add: heap_Node_iff del: heap.simps)
  from split_heap [OF NotLess.prems(1) NotLess.hyps(2)] have h1: "heap t1" "heap t2" by simp_all
  have g0: "all_ge p1 ?v1" using NotLess.prems(1) by (rule heap_all_ge) simp
  have g1: "all_ge p2 ?v1" by (rule all_ge_mono [OF g0]) (use NotLess.hyps(1) in simp)
  have g: "all_ge p2 t1" "all_ge p2 t2"
    using g1 split_prios [OF NotLess.hyps(2)] by (simp_all add: all_ge_subset)
  have "all_ge p2 (union_helper t1 l2)"
    using g(1) h2(3) union_helper_prios by (rule all_ge_union)
  moreover have "all_ge p2 (union_helper t2 r2)"
    using g(2) h2(4) union_helper_prios by (rule all_ge_union)
  ultimately show ?case
    unfolding union_helper_NotLess [OF NotLess.hyps]
    using NotLess.IH(1) [OF h1(1) h2(1)] NotLess.IH(2) [OF h1(2) h2(2)]
    by (simp add: heap_Node_iff del: heap.simps)
qed simp_all

section \<open>A traversal in key order is determined by its lookups\<close>

lemma bst_sorted: "bst t \<Longrightarrow> sorted_wrt (<) (map fst (traverse t))"
proof (induction t)
  case Null
  show ?case by simp
next
  case (Node k x pr l r)
  then show ?case
    by (auto simp: sorted_wrt_append keys_traverse intro: less_trans)
qed

lemma assoc_head_unique:
  fixes xs ys :: "('k::linorder \<times> 'v) list"
  assumes "sorted_wrt (<) (map fst ((k, v) # xs))" "sorted_wrt (<) (map fst ((k', v') # ys))"
    and "map_of ((k, v) # xs) = map_of ((k', v') # ys)"
  shows "k' \<le> k"
proof -
  have "map_of ((k', v') # ys) k = map_of ((k, v) # xs) k"
    using assms(3) [symmetric] by (rule fun_cong)
  then have "map_of ((k', v') # ys) k = Some v" by simp
  then have "k \<in> fst ` set ((k', v') # ys)" by (metis map_of_eq_None_iff option.distinct(1))
  with assms(2) show ?thesis by auto
qed

lemma sorted_map_of_unique:
  fixes xs ys :: "('k::linorder \<times> 'v) list"
  shows "sorted_wrt (<) (map fst xs) \<Longrightarrow> sorted_wrt (<) (map fst ys) \<Longrightarrow>
   map_of xs = map_of ys \<Longrightarrow> xs = ys"
proof (induction xs arbitrary: ys)
  case Nil
  then show ?case by (cases ys) (auto simp: fun_eq_iff split: if_splits)
next
  case (Cons p xs)
  obtain k v where p: "p = (k, v)" by (cases p)
  have "ys \<noteq> []"
  proof
    assume "ys = []"
    from Cons.prems(3) have "map_of (p # xs) k = map_of ys k" by (rule fun_cong)
    with \<open>ys = []\<close> show False by (simp add: p)
  qed
  then obtain k' v' ys' where ys: "ys = (k', v') # ys'" by (cases ys) auto
  from Cons.prems have "k' \<le> k" unfolding p ys by (rule assoc_head_unique)
  moreover have "k \<le> k'"
    using Cons.prems(2) Cons.prems(1) Cons.prems(3) [symmetric] unfolding p ys
    by (rule assoc_head_unique)
  ultimately have k: "k' = k" by simp
  from Cons.prems(3) have "map_of ((k, v) # xs) k = map_of ((k', v') # ys') k"
    unfolding p ys by (rule fun_cong)
  with k have v: "v' = v" by simp
  have nk: "k \<notin> fst ` set xs" "k \<notin> fst ` set ys'"
    using Cons.prems(1,2) unfolding p ys k by auto
  have "map_of xs = map_of ys'"
  proof
    fix j
    show "map_of xs j = map_of ys' j"
    proof (cases "j = k")
      case True
      with nk show ?thesis by (simp add: map_of_eq_None_iff [THEN iffD2])
    next
      case False
      from Cons.prems(3) have "map_of ((k, v) # xs) j = map_of ((k', v') # ys') j"
        unfolding p ys by (rule fun_cong)
      with False k show ?thesis by simp
    qed
  qed
  moreover from Cons.prems(1,2) have "sorted_wrt (<) (map fst xs)" "sorted_wrt (<) (map fst ys')"
    unfolding p ys by simp_all
  ultimately have "xs = ys'" by (intro Cons.IH)
  with k v show ?case unfolding p ys by simp
qed

lemma traverse_unique:
  assumes "bst s" "bst t" "\<And>k. lookup s k = lookup t k"
  shows "traverse s = traverse t"
proof -
  have "map_of (traverse s) = map_of (traverse t)"
    using assms(3) by (auto simp: lookup_def fun_eq_iff)
  with bst_sorted [OF assms(1)] bst_sorted [OF assms(2)] show ?thesis
    by (rule sorted_map_of_unique)
qed

lemma lookup_join:
  "lookup (join v1 v2) k' = (case lookup v1 k' of Some x \<Rightarrow> Some x | None \<Rightarrow> lookup v2 k')"
  by (simp add: lookup_def traverse_join map_add_def split: option.splits)

lemma lookup_keys: "lookup t k' = Some x \<Longrightarrow> k' \<in> keys t"
  using lookup_None_iff [of t k'] by auto

section \<open>Intersection\<close>

lemma split_matched_keys:
  assumes "bst v" "split v key = (t1, t2, a)"
  shows "key \<in> keys v \<longleftrightarrow> a \<noteq> Null"
  using split_matched [OF assms] by (cases a) (auto dest: lookup_keys)

lemma intersect_helper_bst_keys:
  "bst v1 \<Longrightarrow> bst v2 \<Longrightarrow>
   bst (intersect_helper v1 v2) \<and> keys (intersect_helper v1 v2) = keys v1 \<inter> keys v2"
proof (induction v1 v2 rule: pivot_induct)
  case (Null1 v2)
  then show ?case by simp
next
  case (Null2 k1 x1 p1 l1 r1)
  then show ?case by simp
next
  case (Less k1 x1 p1 l1 r1 k2 x2 p2 l2 r2 t1 t2 a)
  let ?v1 = "Node k1 x1 p1 l1 r1" and ?v2 = "Node k2 x2 p2 l2 r2"
  let ?l = "intersect_helper l1 t1" and ?r = "intersect_helper r1 t2"
  from Less.prems(1) have b1: "bst l1" "bst r1"
    and o1: "\<forall>k' \<in> keys l1. k' < k1" "\<forall>k' \<in> keys r1. k1 < k'" by simp_all
  from split_bst [OF Less.prems(2) Less.hyps(2)] have b2: "bst t1" "bst t2" by simp_all
  note ks = split_keys [OF Less.prems(2) Less.hyps(2)]
  note mk = split_matched_keys [OF Less.prems(2) Less.hyps(2)]
  from Less.IH(1) [OF b1(1) b2(1)] have l: "bst ?l" "keys ?l = keys l1 \<inter> keys t1" by simp_all
  from Less.IH(2) [OF b1(2) b2(2)] have r: "bst ?r" "keys ?r = keys r1 \<inter> keys t2" by simp_all
  have lr: "\<forall>x \<in> keys ?l. \<forall>y \<in> keys ?r. x < y"
    using l(2) r(2) o1 by (auto intro: less_trans)
  have kk: "(keys l1 \<inter> keys t1) \<union> (keys r1 \<inter> keys t2) \<union> ({k1} \<inter> keys ?v2) =
      keys ?v1 \<inter> keys ?v2"
    using ks o1 by auto
  show ?case
  proof (cases a)
    case Null
    then have u: "intersect_helper ?v1 ?v2 = join ?l ?r"
      using intersect_helper_Less [OF Less.hyps] by simp
    from Null mk have "{k1} \<inter> keys ?v2 = {}" by simp
    with kk l(2) r(2) have "keys (join ?l ?r) = keys ?v1 \<inter> keys ?v2"
      by (simp add: keys_join)
    moreover have "bst (join ?l ?r)" using l(1) r(1) lr by (rule bst_join)
    ultimately show ?thesis unfolding u by simp
  next
    case (Node ka xa pa la ra)
    then have u: "intersect_helper ?v1 ?v2 = Node k1 x1 p1 ?l ?r"
      using intersect_helper_Less [OF Less.hyps] by simp
    from Node mk have "{k1} \<inter> keys ?v2 = {k1}" by simp
    with kk l(2) r(2) have "keys (Node k1 x1 p1 ?l ?r) = keys ?v1 \<inter> keys ?v2"
      by auto
    moreover have "bst (Node k1 x1 p1 ?l ?r)" using l r o1 by auto
    ultimately show ?thesis unfolding u by simp
  qed
next
  case (NotLess k1 x1 p1 l1 r1 k2 x2 p2 l2 r2 t1 t2 a)
  let ?v1 = "Node k1 x1 p1 l1 r1" and ?v2 = "Node k2 x2 p2 l2 r2"
  let ?l = "intersect_helper t1 l2" and ?r = "intersect_helper t2 r2"
  from NotLess.prems(2) have b2: "bst l2" "bst r2"
    and o2: "\<forall>k' \<in> keys l2. k' < k2" "\<forall>k' \<in> keys r2. k2 < k'" by simp_all
  from split_bst [OF NotLess.prems(1) NotLess.hyps(2)] have b1: "bst t1" "bst t2" by simp_all
  note ks = split_keys [OF NotLess.prems(1) NotLess.hyps(2)]
  note mk = split_matched_keys [OF NotLess.prems(1) NotLess.hyps(2)]
  from NotLess.IH(1) [OF b1(1) b2(1)] have l: "bst ?l" "keys ?l = keys t1 \<inter> keys l2" by simp_all
  from NotLess.IH(2) [OF b1(2) b2(2)] have r: "bst ?r" "keys ?r = keys t2 \<inter> keys r2" by simp_all
  have lr: "\<forall>x \<in> keys ?l. \<forall>y \<in> keys ?r. x < y"
    using l(2) r(2) o2 by (auto intro: less_trans)
  have kk: "(keys t1 \<inter> keys l2) \<union> (keys t2 \<inter> keys r2) \<union> ({k2} \<inter> keys ?v1) =
      keys ?v1 \<inter> keys ?v2"
    using ks o2 by auto
  show ?case
  proof (cases a)
    case Null
    then have u: "intersect_helper ?v1 ?v2 = join ?l ?r"
      using intersect_helper_NotLess [OF NotLess.hyps] by simp
    from Null mk have "{k2} \<inter> keys ?v1 = {}" by simp
    with kk l(2) r(2) have "keys (join ?l ?r) = keys ?v1 \<inter> keys ?v2"
      by (simp add: keys_join)
    moreover have "bst (join ?l ?r)" using l(1) r(1) lr by (rule bst_join)
    ultimately show ?thesis unfolding u by simp
  next
    case (Node ka xa pa la ra)
    then have u: "intersect_helper ?v1 ?v2 = Node k2 xa p2 ?l ?r"
      using intersect_helper_NotLess [OF NotLess.hyps] by simp
    from Node mk have "{k2} \<inter> keys ?v1 = {k2}" by simp
    with kk l(2) r(2) have "keys (Node k2 xa p2 ?l ?r) = keys ?v1 \<inter> keys ?v2"
      by auto
    moreover have "bst (Node k2 xa p2 ?l ?r)" using l r o2 by auto
    ultimately show ?thesis unfolding u by simp
  qed
qed

lemma intersect_helper_lookup:
  "bst v1 \<Longrightarrow> bst v2 \<Longrightarrow>
   lookup (intersect_helper v1 v2) k' = (if k' \<in> keys v2 then lookup v1 k' else None)"
proof (induction v1 v2 rule: pivot_induct)
  case (Null1 v2)
  then show ?case by (simp add: lookup_Null)
next
  case (Null2 k1 x1 p1 l1 r1)
  then show ?case by (simp add: lookup_Null)
next
  case (Less k1 x1 p1 l1 r1 k2 x2 p2 l2 r2 t1 t2 a)
  let ?v1 = "Node k1 x1 p1 l1 r1" and ?v2 = "Node k2 x2 p2 l2 r2"
  let ?l = "intersect_helper l1 t1" and ?r = "intersect_helper r1 t2"
  from Less.prems(1) have b1: "bst l1" "bst r1" by simp_all
  from split_bst [OF Less.prems(2) Less.hyps(2)] have b2: "bst t1" "bst t2" by simp_all
  note ks = split_keys [OF Less.prems(2) Less.hyps(2)]
  note mk = split_matched_keys [OF Less.prems(2) Less.hyps(2)]
  note ih = Less.IH(1) [OF b1(1) b2(1)] Less.IH(2) [OF b1(2) b2(2)]
  note l1 = lookup_Node [OF Less.prems(1)]
  have b: "bst (intersect_helper ?v1 ?v2)"
    using intersect_helper_bst_keys [OF Less.prems] by simp
  show ?case
  proof (cases a)
    case Null
    then have u: "intersect_helper ?v1 ?v2 = join ?l ?r"
      using intersect_helper_Less [OF Less.hyps] by simp
    from Null mk have nk: "k1 \<notin> keys ?v2" by simp
    have "lookup (join ?l ?r) k' = (if k' \<in> keys ?v2 then lookup ?v1 k' else None)"
      unfolding lookup_join ih ks l1 using nk by (auto split: option.splits)
    then show ?thesis unfolding u .
  next
    case (Node ka xa pa la ra)
    then have u: "intersect_helper ?v1 ?v2 = Node k1 x1 p1 ?l ?r"
      using intersect_helper_Less [OF Less.hyps] by simp
    from Node mk have nk: "k1 \<in> keys ?v2" by simp
    have "lookup (Node k1 x1 p1 ?l ?r) k' = (if k' \<in> keys ?v2 then lookup ?v1 k' else None)"
      unfolding lookup_Node [OF b [unfolded u]] ih ks l1 using nk by auto
    then show ?thesis unfolding u .
  qed
next
  case (NotLess k1 x1 p1 l1 r1 k2 x2 p2 l2 r2 t1 t2 a)
  let ?v1 = "Node k1 x1 p1 l1 r1" and ?v2 = "Node k2 x2 p2 l2 r2"
  let ?l = "intersect_helper t1 l2" and ?r = "intersect_helper t2 r2"
  from NotLess.prems(2) have b2: "bst l2" "bst r2"
    and o2: "\<forall>k' \<in> keys l2. k' < k2" "\<forall>k' \<in> keys r2. k2 < k'" by simp_all
  from split_bst [OF NotLess.prems(1) NotLess.hyps(2)] have b1: "bst t1" "bst t2" by simp_all
  note sl = split_lookup [OF NotLess.prems(1) NotLess.hyps(2)]
  note sm = split_matched_lookup [OF NotLess.prems(1) NotLess.hyps(2)]
  note ih = NotLess.IH(1) [OF b1(1) b2(1)] NotLess.IH(2) [OF b1(2) b2(2)]
  have b: "bst (intersect_helper ?v1 ?v2)"
    using intersect_helper_bst_keys [OF NotLess.prems] by simp
  have kl: "k' \<in> keys l2 \<Longrightarrow> k' < k2" and kr: "k' \<in> keys r2 \<Longrightarrow> k2 < k'" for k'
    using o2 by auto
  show ?case
  proof (cases a)
    case Null
    then have u: "intersect_helper ?v1 ?v2 = join ?l ?r"
      using intersect_helper_NotLess [OF NotLess.hyps] by simp
    from Null sm have nk: "lookup ?v1 k2 = None" by simp
    have "lookup (join ?l ?r) k' = (if k' \<in> keys ?v2 then lookup ?v1 k' else None)"
      unfolding lookup_join ih sl using nk by (auto split: option.splits dest: kl kr)
    then show ?thesis unfolding u .
  next
    case (Node ka xa pa la ra)
    then have u: "intersect_helper ?v1 ?v2 = Node k2 xa p2 ?l ?r"
      using intersect_helper_NotLess [OF NotLess.hyps] by simp
    from Node sm have nk: "lookup ?v1 k2 = Some xa" by simp
    have "lookup (Node k2 xa p2 ?l ?r) k' = (if k' \<in> keys ?v2 then lookup ?v1 k' else None)"
      unfolding lookup_Node [OF b [unfolded u]] ih sl using nk by (auto dest: kl kr)
    then show ?thesis unfolding u .
  qed
qed

lemma intersect_helper_prios: "prios (intersect_helper v1 v2) \<subseteq> prios v1 \<union> prios v2"
proof (induction v1 v2 rule: pivot_induct)
  case (Less k1 x1 p1 l1 r1 k2 x2 p2 l2 r2 t1 t2 a)
  from split_prios [OF Less.hyps(2)] Less.IH show ?case
    unfolding intersect_helper_Less [OF Less.hyps]
    by (cases a) (auto simp: prios_join)
next
  case (NotLess k1 x1 p1 l1 r1 k2 x2 p2 l2 r2 t1 t2 a)
  from split_prios [OF NotLess.hyps(2)] NotLess.IH show ?case
    unfolding intersect_helper_NotLess [OF NotLess.hyps]
    by (cases a) (auto simp: prios_join)
qed simp_all

lemma intersect_helper_heap: "heap v1 \<Longrightarrow> heap v2 \<Longrightarrow> heap (intersect_helper v1 v2)"
proof (induction v1 v2 rule: pivot_induct)
  case (Less k1 x1 p1 l1 r1 k2 x2 p2 l2 r2 t1 t2 a)
  let ?v2 = "Node k2 x2 p2 l2 r2"
  let ?l = "intersect_helper l1 t1" and ?r = "intersect_helper r1 t2"
  from Less.prems(1) have h1: "heap l1" "heap r1" "all_ge p1 l1" "all_ge p1 r1"
    by (simp_all add: heap_Node_iff del: heap.simps)
  from split_heap [OF Less.prems(2) Less.hyps(2)] have h2: "heap t1" "heap t2" by simp_all
  have g0: "all_ge p2 ?v2" using Less.prems(2) by (rule heap_all_ge) simp
  have g2: "all_ge p1 ?v2" by (rule all_ge_mono [OF g0]) (use Less.hyps(1) in simp)
  have g: "all_ge p1 t1" "all_ge p1 t2"
    using g2 split_prios [OF Less.hyps(2)] by (simp_all add: all_ge_subset)
  have hl: "heap ?l" and hr: "heap ?r"
    using Less.IH(1) [OF h1(1) h2(1)] Less.IH(2) [OF h1(2) h2(2)] by simp_all
  have gl: "all_ge p1 ?l"
    using h1(3) g(1) intersect_helper_prios by (rule all_ge_union)
  have gr: "all_ge p1 ?r"
    using h1(4) g(2) intersect_helper_prios by (rule all_ge_union)
  show ?case
    unfolding intersect_helper_Less [OF Less.hyps]
    using hl hr gl gr by (cases a) (simp_all add: heap_Node_iff heap_join del: heap.simps)
next
  case (NotLess k1 x1 p1 l1 r1 k2 x2 p2 l2 r2 t1 t2 a)
  let ?v1 = "Node k1 x1 p1 l1 r1"
  let ?l = "intersect_helper t1 l2" and ?r = "intersect_helper t2 r2"
  from NotLess.prems(2) have h2: "heap l2" "heap r2" "all_ge p2 l2" "all_ge p2 r2"
    by (simp_all add: heap_Node_iff del: heap.simps)
  from split_heap [OF NotLess.prems(1) NotLess.hyps(2)] have h1: "heap t1" "heap t2" by simp_all
  have g0: "all_ge p1 ?v1" using NotLess.prems(1) by (rule heap_all_ge) simp
  have g1: "all_ge p2 ?v1" by (rule all_ge_mono [OF g0]) (use NotLess.hyps(1) in simp)
  have g: "all_ge p2 t1" "all_ge p2 t2"
    using g1 split_prios [OF NotLess.hyps(2)] by (simp_all add: all_ge_subset)
  have hl: "heap ?l" and hr: "heap ?r"
    using NotLess.IH(1) [OF h1(1) h2(1)] NotLess.IH(2) [OF h1(2) h2(2)] by simp_all
  have gl: "all_ge p2 ?l"
    using g(1) h2(3) intersect_helper_prios by (rule all_ge_union)
  have gr: "all_ge p2 ?r"
    using g(2) h2(4) intersect_helper_prios by (rule all_ge_union)
  show ?case
    unfolding intersect_helper_NotLess [OF NotLess.hyps]
    using hl hr gl gr by (cases a) (simp_all add: heap_Node_iff heap_join del: heap.simps)
qed simp_all

section \<open>Difference\<close>

lemma difference_helper_bst_keys:
  "bst v1 \<Longrightarrow> bst v2 \<Longrightarrow>
   bst (difference_helper v1 v2) \<and> keys (difference_helper v1 v2) = keys v1 - keys v2"
proof (induction v1 v2 rule: difference_induct)
  case (Null1 v2)
  then show ?case by simp
next
  case (Null2 k1 x1 p1 l1 r1)
  then show ?case by simp
next
  case (Pivot k1 x1 p1 l1 r1 k2 x2 p2 l2 r2 t1 t2 a)
  let ?v1 = "Node k1 x1 p1 l1 r1" and ?v2 = "Node k2 x2 p2 l2 r2"
  let ?l = "difference_helper l1 t1" and ?r = "difference_helper r1 t2"
  from Pivot.prems(1) have b1: "bst l1" "bst r1"
    and o1: "\<forall>k' \<in> keys l1. k' < k1" "\<forall>k' \<in> keys r1. k1 < k'" by simp_all
  from split_bst [OF Pivot.prems(2) Pivot.hyps(1)] have b2: "bst t1" "bst t2" by simp_all
  note ks = split_keys [OF Pivot.prems(2) Pivot.hyps(1)]
  note mk = split_matched_keys [OF Pivot.prems(2) Pivot.hyps(1)]
  from Pivot.IH(1) [OF b1(1) b2(1)] have l: "bst ?l" "keys ?l = keys l1 - keys t1" by simp_all
  from Pivot.IH(2) [OF b1(2) b2(2)] have r: "bst ?r" "keys ?r = keys r1 - keys t2" by simp_all
  have lr: "\<forall>x \<in> keys ?l. \<forall>y \<in> keys ?r. x < y"
    using l(2) r(2) o1 by (auto intro: less_trans)
  have kk: "(keys l1 - keys t1) \<union> (keys r1 - keys t2) \<union> ({k1} - keys ?v2) =
      keys ?v1 - keys ?v2"
    using ks o1 by auto
  show ?case
  proof (cases a)
    case Null
    then have u: "difference_helper ?v1 ?v2 = Node k1 x1 p1 ?l ?r"
      using difference_helper_Pivot [OF Pivot.hyps(1)] by simp
    from Null mk have "{k1} - keys ?v2 = {k1}" by auto
    with kk l(2) r(2) have "keys (Node k1 x1 p1 ?l ?r) = keys ?v1 - keys ?v2"
      by auto
    moreover have "bst (Node k1 x1 p1 ?l ?r)" using l r o1 by auto
    ultimately show ?thesis unfolding u by simp
  next
    case (Node ka xa pa la ra)
    then have u: "difference_helper ?v1 ?v2 = join ?l ?r"
      using difference_helper_Pivot [OF Pivot.hyps(1)] by simp
    from Node mk have "{k1} - keys ?v2 = {}" by auto
    with kk l(2) r(2) have "keys (join ?l ?r) = keys ?v1 - keys ?v2"
      by (simp add: keys_join)
    moreover have "bst (join ?l ?r)" using l(1) r(1) lr by (rule bst_join)
    ultimately show ?thesis unfolding u by simp
  qed
qed

lemma difference_helper_lookup:
  "bst v1 \<Longrightarrow> bst v2 \<Longrightarrow>
   lookup (difference_helper v1 v2) k' = (if k' \<in> keys v2 then None else lookup v1 k')"
proof (induction v1 v2 rule: difference_induct)
  case (Null1 v2)
  then show ?case by (simp add: lookup_Null)
next
  case (Null2 k1 x1 p1 l1 r1)
  then show ?case by simp
next
  case (Pivot k1 x1 p1 l1 r1 k2 x2 p2 l2 r2 t1 t2 a)
  let ?v1 = "Node k1 x1 p1 l1 r1" and ?v2 = "Node k2 x2 p2 l2 r2"
  let ?l = "difference_helper l1 t1" and ?r = "difference_helper r1 t2"
  from Pivot.prems(1) have b1: "bst l1" "bst r1"
    and o1: "\<forall>k' \<in> keys l1. k' < k1" "\<forall>k' \<in> keys r1. k1 < k'" by simp_all
  from split_bst [OF Pivot.prems(2) Pivot.hyps(1)] have b2: "bst t1" "bst t2" by simp_all
  note ks = split_keys [OF Pivot.prems(2) Pivot.hyps(1)]
  note mk = split_matched_keys [OF Pivot.prems(2) Pivot.hyps(1)]
  note ih = Pivot.IH(1) [OF b1(1) b2(1)] Pivot.IH(2) [OF b1(2) b2(2)]
  note l1 = lookup_Node [OF Pivot.prems(1)]
  have b: "bst (difference_helper ?v1 ?v2)"
    using difference_helper_bst_keys [OF Pivot.prems] by simp
  have nl: "\<not> k' < k1 \<Longrightarrow> lookup l1 k' = None" for k'
    using o1(1) by (auto simp: lookup_None_iff)
  have nr: "\<not> k1 < k' \<Longrightarrow> lookup r1 k' = None" for k'
    using o1(2) by (auto simp: lookup_None_iff)
  show ?case
  proof (cases a)
    case Null
    then have u: "difference_helper ?v1 ?v2 = Node k1 x1 p1 ?l ?r"
      using difference_helper_Pivot [OF Pivot.hyps(1)] by simp
    from Null mk have nk: "k1 \<notin> keys ?v2" by simp
    have "lookup (Node k1 x1 p1 ?l ?r) k' = (if k' \<in> keys ?v2 then None else lookup ?v1 k')"
      unfolding lookup_Node [OF b [unfolded u]] ih ks l1 using nk by auto
    then show ?thesis unfolding u .
  next
    case (Node ka xa pa la ra)
    then have u: "difference_helper ?v1 ?v2 = join ?l ?r"
      using difference_helper_Pivot [OF Pivot.hyps(1)] by simp
    from Node mk have nk: "k1 \<in> keys ?v2" by simp
    have "lookup (join ?l ?r) k' = (if k' \<in> keys ?v2 then None else lookup ?v1 k')"
      unfolding lookup_join ih ks l1 using nk by (auto split: option.splits simp: nl nr)
    then show ?thesis unfolding u .
  qed
qed

lemma difference_helper_prios: "prios (difference_helper v1 v2) \<subseteq> prios v1"
proof (induction v1 v2 rule: difference_induct)
  case (Pivot k1 x1 p1 l1 r1 k2 x2 p2 l2 r2 t1 t2 a)
  from Pivot.IH show ?case
    unfolding difference_helper_Pivot [OF Pivot.hyps(1)]
    by (cases a) (auto simp: prios_join)
qed simp_all

lemma difference_helper_heap: "heap v1 \<Longrightarrow> heap (difference_helper v1 v2)"
proof (induction v1 v2 rule: difference_induct)
  case (Pivot k1 x1 p1 l1 r1 k2 x2 p2 l2 r2 t1 t2 a)
  let ?l = "difference_helper l1 t1" and ?r = "difference_helper r1 t2"
  from Pivot.prems(1) have h1: "heap l1" "heap r1" "all_ge p1 l1" "all_ge p1 r1"
    by (simp_all add: heap_Node_iff del: heap.simps)
  have hl: "heap ?l" and hr: "heap ?r"
    using Pivot.IH(1) [OF h1(1)] Pivot.IH(2) [OF h1(2)] by simp_all
  have gl: "all_ge p1 ?l" using h1(3) difference_helper_prios by (rule all_ge_subset)
  have gr: "all_ge p1 ?r" using h1(4) difference_helper_prios by (rule all_ge_subset)
  show ?case
    unfolding difference_helper_Pivot [OF Pivot.hyps(1)]
    using hl hr gl gr by (cases a) (simp_all add: heap_Node_iff heap_join del: heap.simps)
qed simp_all

section \<open>Traversals by filtering\<close>

lemma filter_keys_sorted:
  "sorted_wrt (<) (map fst xs) \<Longrightarrow> sorted_wrt (<) (map fst (filter (\<lambda>(k, x). Q k) xs))"
  by (induction xs) auto

lemma traverse_filter_keys:
  assumes "bst s" "bst t" "\<And>k. lookup s k = (if Q k then lookup t k else None)"
  shows "traverse s = filter (\<lambda>(k, x). Q k) (traverse t)"
proof (rule sorted_map_of_unique)
  show "sorted_wrt (<) (map fst (traverse s))" using assms(1) by (rule bst_sorted)
  show "sorted_wrt (<) (map fst (filter (\<lambda>(k, x). Q k) (traverse t)))"
    using bst_sorted [OF assms(2)] by (rule filter_keys_sorted)
  show "map_of (traverse s) = map_of (filter (\<lambda>(k, x). Q k) (traverse t))"
    using assms(3) by (auto simp: fun_eq_iff map_of_filter_key lookup_def)
qed

section \<open>The values of the second operand of difference\<close>

lemma split_rec_map_vals:
  "split_rec v key = (r1, r2, a) \<Longrightarrow>
   split_rec (map_vals f v) key = (map_vals f r1, map_vals f r2, map_vals f a)"
  by (induction v arbitrary: r1 r2 a) (auto split: if_splits prod.splits)

lemma split_map_vals:
  "split v key = (r1, r2, a) \<Longrightarrow>
   split (map_vals f v) key = (map_vals f r1, map_vals f r2, map_vals f a)"
  unfolding split_split_rec by (rule split_rec_map_vals)

lemma difference_helper_map_vals:
  "difference_helper v1 (map_vals f v2) = difference_helper v1 v2"
proof (induction v1 v2 rule: difference_induct)
  case (Null1 v2)
  show ?case by simp
next
  case (Null2 k1 x1 p1 l1 r1)
  show ?case by simp
next
  case (Pivot k1 x1 p1 l1 r1 k2 x2 p2 l2 r2 t1 t2 a)
  let ?v2 = "Node k2 x2 p2 l2 r2"
  have s: "split (Node k2 (f k2 x2) p2 (map_vals f l2) (map_vals f r2)) k1 =
      (map_vals f t1, map_vals f t2, map_vals f a)"
    using split_map_vals [OF Pivot.hyps(1), of f] by simp
  show ?case
    unfolding map_vals.simps difference_helper_Pivot [OF s]
      difference_helper_Pivot [OF Pivot.hyps(1)] Pivot.IH
    by (cases a) simp_all
qed

section \<open>Both invariants together\<close>

lemma reachable_bst: "a \<in> reachable t \<Longrightarrow> bst t \<Longrightarrow> bst a"
  by (induction t) auto

lemma reachable_heap: "a \<in> reachable t \<Longrightarrow> heap t \<Longrightarrow> heap a"
  by (induction t) auto

lemma treap_Null: "treap Null"
  by (simp add: treap_def)

lemma treap_single: "treap (Node k x pr Null Null)"
  by (simp add: treap_def)

lemma split_treap:
  assumes "treap t" and "split t k = (lt, gt, matched)"
  shows "treap lt \<and> treap gt \<and> treap matched"
proof -
  from assms(1) have b: "bst t" and h: "heap t" by (simp_all add: treap_def)
  from split_bst [OF b assms(2)] split_heap [OF h assms(2)]
  have "treap lt" "treap gt" by (simp_all add: treap_def)
  moreover have "treap matched"
  proof (cases matched)
    case Null
    then show ?thesis by (simp add: treap_Null)
  next
    case (Node ka xa pa la ra)
    with split_matched [OF b assms(2)] have "matched \<in> reachable t" by auto
    with b h show ?thesis by (simp add: treap_def reachable_bst reachable_heap)
  qed
  ultimately show ?thesis by simp
qed

lemma join_treap: "treap v1 \<Longrightarrow> treap v2 \<Longrightarrow> join_pre v1 v2 \<Longrightarrow> treap (join v1 v2)"
  by (simp add: treap_def join_pre_def bst_join heap_join)

lemma union_helper_treap: "treap v1 \<Longrightarrow> treap v2 \<Longrightarrow> treap (union_helper v1 v2)"
  by (simp add: treap_def union_helper_bst_keys union_helper_heap)

lemma intersect_helper_treap: "treap v1 \<Longrightarrow> treap v2 \<Longrightarrow> treap (intersect_helper v1 v2)"
  by (simp add: treap_def intersect_helper_bst_keys intersect_helper_heap)

lemma difference_helper_treap: "treap v1 \<Longrightarrow> treap v2 \<Longrightarrow> treap (difference_helper v1 v2)"
  by (simp add: treap_def difference_helper_bst_keys difference_helper_heap)

text \<open>
  The calls of \<^verbatim>\<open>join\<close> (lines 285, 308 and 355; the calls at lines 184 and 199 are its
  own recursion) are within its contract whenever the operands of the calling function
  are in search-tree order.
\<close>

lemma intersect_helper_join_pre_Less:
  assumes "bst (Node k1 x1 p1 l1 r1)" and "bst v2" and "split v2 k1 = (t1, t2, a)"
  shows "join_pre (intersect_helper l1 t1) (intersect_helper r1 t2)"
proof -
  from assms(1) have b1: "bst l1" "bst r1"
    and o1: "\<forall>k' \<in> keys l1. k' < k1" "\<forall>k' \<in> keys r1. k1 < k'" by simp_all
  from split_bst [OF assms(2,3)] have b2: "bst t1" "bst t2" by simp_all
  from intersect_helper_bst_keys [OF b1(1) b2(1)] intersect_helper_bst_keys [OF b1(2) b2(2)] o1
  show ?thesis by (auto simp: join_pre_def intro: less_trans)
qed

lemma intersect_helper_join_pre_NotLess:
  assumes "bst v1" and "bst (Node k2 x2 p2 l2 r2)" and "split v1 k2 = (t1, t2, a)"
  shows "join_pre (intersect_helper t1 l2) (intersect_helper t2 r2)"
proof -
  from assms(2) have b2: "bst l2" "bst r2"
    and o2: "\<forall>k' \<in> keys l2. k' < k2" "\<forall>k' \<in> keys r2. k2 < k'" by simp_all
  from split_bst [OF assms(1,3)] have b1: "bst t1" "bst t2" by simp_all
  from intersect_helper_bst_keys [OF b1(1) b2(1)] intersect_helper_bst_keys [OF b1(2) b2(2)] o2
  show ?thesis by (auto simp: join_pre_def intro: less_trans)
qed

lemma difference_helper_join_pre:
  assumes "bst (Node k1 x1 p1 l1 r1)" and "bst v2" and "split v2 k1 = (t1, t2, a)"
  shows "join_pre (difference_helper l1 t1) (difference_helper r1 t2)"
proof -
  from assms(1) have b1: "bst l1" "bst r1"
    and o1: "\<forall>k' \<in> keys l1. k' < k1" "\<forall>k' \<in> keys r1. k1 < k'" by simp_all
  from split_bst [OF assms(2,3)] have b2: "bst t1" "bst t2" by simp_all
  from difference_helper_bst_keys [OF b1(1) b2(1)] difference_helper_bst_keys [OF b1(2) b2(2)] o1
  show ?thesis by (auto simp: join_pre_def intro: less_trans)
qed

lemma join_recursion_join_pre:
  assumes "join_pre (Node k1 x1 p1 l1 r1) (Node k2 x2 p2 l2 r2)"
  shows "join_pre r1 (Node k2 x2 p2 l2 r2) \<and> join_pre (Node k1 x1 p1 l1 r1) l2"
  using assms by (auto simp: join_pre_def)

section \<open>Claims\<close>

text \<open>
  C1: for valid treaps \<open>A\<close> and \<open>B\<close>, the in-order traversal of \<open>treap_union A B\<close> lists
  its keys in strictly ascending order (each key once), the keys are exactly those of
  \<open>A\<close> together with those of \<open>B\<close>, and each key is paired with the value \<open>A\<close> holds for
  it when \<open>A\<close> has the key, and with the value \<open>B\<close> holds otherwise.
\<close>

theorem treap_union_traverse:
  assumes "treap (root A)" and "treap (root B)"
  shows "sorted_wrt (<) (map fst (traverse (root (treap_union A B)))) \<and>
    fst ` set (traverse (root (treap_union A B))) = keys (root A) \<union> keys (root B) \<and>
    map_of (traverse (root (treap_union A B))) k =
      (case map_of (traverse (root A)) k of
         Some x \<Rightarrow> Some x
       | None \<Rightarrow> map_of (traverse (root B)) k)"
proof -
  from assms have b: "bst (root A)" "bst (root B)" by (simp_all add: treap_def)
  have r: "root (treap_union A B) = union_helper (root A) (root B)"
    by (simp add: treap_union_def)
  from union_helper_bst_keys [OF b] have
    "bst (union_helper (root A) (root B))"
    "keys (union_helper (root A) (root B)) = keys (root A) \<union> keys (root B)" by simp_all
  then have "sorted_wrt (<) (map fst (traverse (union_helper (root A) (root B))))"
    "fst ` set (traverse (union_helper (root A) (root B))) = keys (root A) \<union> keys (root B)"
    by (simp_all add: bst_sorted keys_traverse [symmetric])
  moreover have "map_of (traverse (union_helper (root A) (root B))) k =
      (case map_of (traverse (root A)) k of
         Some x \<Rightarrow> Some x
       | None \<Rightarrow> map_of (traverse (root B)) k)"
    using union_helper_lookup [OF b, of k] unfolding lookup_def .
  ultimately show ?thesis unfolding r by simp
qed

theorem treap_union_traverse_witness:
  "treap (root \<lparr>root = example_A\<rparr>) \<and> treap (root \<lparr>root = example_B\<rparr>) \<and>
   traverse (root (treap_union \<lparr>root = example_A\<rparr> \<lparr>root = example_B\<rparr>)) =
     [(1, 10), (2, 20), (3, 30), (4, 4000)] \<and>
   map_of (traverse (root (treap_union \<lparr>root = example_A\<rparr> \<lparr>root = example_B\<rparr>))) 3 =
     (case map_of (traverse (root \<lparr>root = example_A\<rparr>)) 3 of
        Some x \<Rightarrow> Some x
      | None \<Rightarrow> map_of (traverse (root \<lparr>root = example_B\<rparr>)) 3)"
proof -
  have a: "treap (root \<lparr>root = example_A\<rparr>)" by (simp add: treap_def example_A_def)
  have b: "treap (root \<lparr>root = example_B\<rparr>)" by (simp add: treap_def example_B_def)
  have t: "traverse (root (treap_union \<lparr>root = example_A\<rparr> \<lparr>root = example_B\<rparr>)) =
      [(1, 10), (2, 20), (3, 30), (4, 4000)]"
    by (simp add: treap_union_def split_def split_loop_def example_A_def example_B_def)
  show ?thesis
    using a b t treap_union_traverse [OF a b, of 3] by simp
qed

text \<open>
  C2: for valid treaps \<open>A\<close> and \<open>B\<close>, the in-order traversal of \<open>difference A B\<close> is the
  traversal of \<open>A\<close> with the entries whose key is a key of \<open>B\<close> left out: exactly the
  keys of \<open>A\<close> that are not keys of \<open>B\<close>, each with its value from \<open>A\<close>.
\<close>

theorem difference_traverse:
  assumes "treap (root A)" and "treap (root B)"
  shows "traverse (root (difference A B)) =
    filter (\<lambda>(k, x). k \<notin> keys (root B)) (traverse (root A))"
proof -
  from assms have b: "bst (root A)" "bst (root B)" by (simp_all add: treap_def)
  have "traverse (difference_helper (root A) (root B)) =
      filter (\<lambda>(k, x). k \<notin> keys (root B)) (traverse (root A))"
  proof (rule traverse_filter_keys)
    show "bst (difference_helper (root A) (root B))"
      using difference_helper_bst_keys [OF b] by simp
    show "bst (root A)" by (rule b(1))
    show "lookup (difference_helper (root A) (root B)) k =
        (if k \<notin> keys (root B) then lookup (root A) k else None)" for k
      using difference_helper_lookup [OF b, of k] by simp
  qed
  then show ?thesis by (simp add: difference_def)
qed

theorem difference_traverse_witness:
  "treap (root \<lparr>root = example_A\<rparr>) \<and> treap (root \<lparr>root = example_B\<rparr>) \<and>
   traverse (root (difference \<lparr>root = example_A\<rparr> \<lparr>root = example_B\<rparr>)) = [(1, 10)] \<and>
   filter (\<lambda>(k, x). k \<notin> keys (root \<lparr>root = example_B\<rparr>))
     (traverse (root \<lparr>root = example_A\<rparr>)) = [(1, 10)]"
proof -
  have a: "treap (root \<lparr>root = example_A\<rparr>)" by (simp add: treap_def example_A_def)
  have b: "treap (root \<lparr>root = example_B\<rparr>)" by (simp add: treap_def example_B_def)
  have t: "traverse (root (difference \<lparr>root = example_A\<rparr> \<lparr>root = example_B\<rparr>)) = [(1, 10)]"
    by (simp add: difference_def split_def split_loop_def example_A_def example_B_def)
  show ?thesis
    using a b t difference_traverse [OF a b] by simp
qed

text \<open>
  C3: for valid treaps \<open>A\<close> and \<open>B\<close>, the in-order traversal of \<open>intersection A B\<close> is
  the traversal of \<open>A\<close> restricted to the entries whose key is a key of \<open>B\<close>: exactly
  the keys present in both, each with its value from \<open>A\<close>.
\<close>

theorem intersection_traverse:
  assumes "treap (root A)" and "treap (root B)"
  shows "traverse (root (intersection A B)) =
    filter (\<lambda>(k, x). k \<in> keys (root B)) (traverse (root A))"
proof -
  from assms have b: "bst (root A)" "bst (root B)" by (simp_all add: treap_def)
  have "traverse (intersect_helper (root A) (root B)) =
      filter (\<lambda>(k, x). k \<in> keys (root B)) (traverse (root A))"
  proof (rule traverse_filter_keys)
    show "bst (intersect_helper (root A) (root B))"
      using intersect_helper_bst_keys [OF b] by simp
    show "bst (root A)" by (rule b(1))
    show "lookup (intersect_helper (root A) (root B)) k =
        (if k \<in> keys (root B) then lookup (root A) k else None)" for k
      using b by (rule intersect_helper_lookup)
  qed
  then show ?thesis by (simp add: intersection_def)
qed

theorem intersection_traverse_witness:
  "treap (root \<lparr>root = example_A\<rparr>) \<and> treap (root \<lparr>root = example_B\<rparr>) \<and>
   traverse (root (intersection \<lparr>root = example_A\<rparr> \<lparr>root = example_B\<rparr>)) =
     [(2, 20), (3, 30)] \<and>
   filter (\<lambda>(k, x). k \<in> keys (root \<lparr>root = example_B\<rparr>))
     (traverse (root \<lparr>root = example_A\<rparr>)) = [(2, 20), (3, 30)]"
proof -
  have a: "treap (root \<lparr>root = example_A\<rparr>)" by (simp add: treap_def example_A_def)
  have b: "treap (root \<lparr>root = example_B\<rparr>)" by (simp add: treap_def example_B_def)
  have t: "traverse (root (intersection \<lparr>root = example_A\<rparr> \<lparr>root = example_B\<rparr>)) =
      [(2, 20), (3, 30)]"
    by (simp add: intersection_def split_def split_loop_def example_A_def example_B_def)
  show ?thesis
    using a b t intersection_traverse [OF a b] by simp
qed

text \<open>
  C4: applied to operands that satisfy the two invariants (search-tree order and heap
  order at every reachable node), \<open>split\<close>, \<open>join\<close>, the union, the intersection, the
  difference, \<open>insert\<close> and \<open>remove\<close> return treaps that satisfy both invariants.
  \<open>join\<close> is a private function with the contract that every key of its first operand
  is below every key of its second operand (\<open>join_pre\<close>); its operands are taken within
  that contract, which all of its calls meet (\<open>intersect_helper_join_pre_Less\<close>,
  \<open>intersect_helper_join_pre_NotLess\<close>, \<open>difference_helper_join_pre\<close>,
  \<open>join_recursion_join_pre\<close>).
\<close>

theorem operations_preserve_invariants:
  assumes "treap (root T)" and "treap (root U)"
  shows "(case split (root T) k of (lt, gt, matched) \<Rightarrow> treap lt \<and> treap gt \<and> treap matched) \<and>
    (join_pre (root T) (root U) \<longrightarrow> treap (join (root T) (root U))) \<and>
    treap (root (treap_union T U)) \<and>
    treap (root (intersection T U)) \<and>
    treap (root (difference T U)) \<and>
    treap (root (insert_treap T k x rnd)) \<and>
    treap (root (remove_treap T k placeholder rnd))"
proof -
  obtain lt gt matched where s: "split (root T) k = (lt, gt, matched)" by (rule split_cases)
  from split_treap [OF assms(1) s] s
  have "case split (root T) k of (lt, gt, matched) \<Rightarrow> treap lt \<and> treap gt \<and> treap matched"
    by simp
  moreover have "join_pre (root T) (root U) \<longrightarrow> treap (join (root T) (root U))"
    using assms by (simp add: join_treap)
  moreover have "treap (root (treap_union T U))"
    using assms by (simp add: treap_union_def union_helper_treap)
  moreover have "treap (root (intersection T U))"
    using assms by (simp add: intersection_def intersect_helper_treap)
  moreover have "treap (root (difference T U))"
    using assms by (simp add: difference_def difference_helper_treap)
  moreover have "treap (root (insert_treap T k x rnd))"
    using assms(1) treap_single [of k x rnd]
    by (simp add: insert_treap_def treap_union_def new_PersistTreap_def union_helper_treap)
  moreover have "treap (root (remove_treap T k placeholder rnd))"
    using assms(1) treap_single [of k placeholder rnd]
    by (simp add: remove_treap_def difference_def new_PersistTreap_def difference_helper_treap)
  ultimately show ?thesis by simp
qed

theorem operations_preserve_invariants_witness:
  "treap (root \<lparr>root = example_A\<rparr>) \<and> treap (root \<lparr>root = example_C\<rparr>) \<and>
   join_pre (root \<lparr>root = example_A\<rparr>) (root \<lparr>root = example_C\<rparr>) \<and>
   treap (join (root \<lparr>root = example_A\<rparr>) (root \<lparr>root = example_C\<rparr>)) \<and>
   join (root \<lparr>root = example_A\<rparr>) (root \<lparr>root = example_C\<rparr>) =
     Node 2 20 1 (Node 1 10 5 Null Null)
       (Node 5 50 3 (Node 3 30 4 Null Null) (Node 6 60 8 Null Null)) \<and>
   treap (root (treap_union \<lparr>root = example_A\<rparr> \<lparr>root = example_C\<rparr>)) \<and>
   treap (root (remove_treap \<lparr>root = example_A\<rparr> 2 0 9))"
proof -
  have a: "treap (root \<lparr>root = example_A\<rparr>)" by (simp add: treap_def example_A_def)
  have c: "treap (root \<lparr>root = example_C\<rparr>)" by (simp add: treap_def example_C_def)
  have p: "join_pre (root \<lparr>root = example_A\<rparr>) (root \<lparr>root = example_C\<rparr>)"
    by (simp add: join_pre_def example_A_def example_C_def)
  have j: "join (root \<lparr>root = example_A\<rparr>) (root \<lparr>root = example_C\<rparr>) =
      Node 2 20 1 (Node 1 10 5 Null Null)
        (Node 5 50 3 (Node 3 30 4 Null Null) (Node 6 60 8 Null Null))"
    by (simp add: example_A_def example_C_def)
  show ?thesis
    using a c p j operations_preserve_invariants [OF a c, of 2 0 9 0] by simp
qed

text \<open>
  C5: for a valid treap \<open>t\<close> and a key \<open>k\<close>, \<open>split t k\<close> returns \<open>(lt, gt, matched)\<close>
  where \<open>lt\<close> holds exactly the entries of \<open>t\<close> with a key below \<open>k\<close>, \<open>gt\<close> exactly
  those with a key above \<open>k\<close>, and \<open>matched\<close> is nil when \<open>k\<close> is not a key of \<open>t\<close> and
  otherwise is the node of \<open>t\<close> whose key is \<open>k\<close>; \<open>k\<close> is a key of neither \<open>lt\<close> nor
  \<open>gt\<close>.
\<close>

theorem split_contract:
  assumes "treap t" and "split t k = (lt, gt, matched)"
  shows "traverse lt = filter (\<lambda>(k', x). k' < k) (traverse t) \<and>
    traverse gt = filter (\<lambda>(k', x). k < k') (traverse t) \<and>
    (case matched of
       Null \<Rightarrow> k \<notin> keys t
     | Node ka xa pa la ra \<Rightarrow> ka = k \<and> matched \<in> reachable t) \<and>
    k \<notin> keys lt \<and> k \<notin> keys gt"
proof -
  from assms(1) have b: "bst t" by (simp add: treap_def)
  from assms(2) have s: "split_rec t k = (lt, gt, matched)"
    by (simp add: split_split_rec)
  from split_rec_traverse [OF b s] have
    "traverse lt = filter (\<lambda>(k', x). k' < k) (traverse t)"
    "traverse gt = filter (\<lambda>(k', x). k < k') (traverse t)" by simp_all
  moreover from split_rec_matched [OF b s] have
    "case matched of
       Null \<Rightarrow> k \<notin> keys t
     | Node ka xa pa la ra \<Rightarrow> ka = k \<and> matched \<in> reachable t"
    by (cases matched) simp_all
  moreover from split_rec_keys [OF b s] have "k \<notin> keys lt" "k \<notin> keys gt"
    by simp_all
  ultimately show ?thesis by simp
qed

theorem split_contract_witness:
  "treap example_A \<and>
   split example_A 2 = (Node 1 10 5 Null Null, Node 3 30 4 Null Null, example_A) \<and>
   traverse (Node 1 10 5 Null Null :: (nat, nat) node) =
     filter (\<lambda>(k', x). k' < 2) (traverse example_A) \<and>
   traverse (Node 3 30 4 Null Null :: (nat, nat) node) =
     filter (\<lambda>(k', x). 2 < k') (traverse example_A) \<and>
   example_A \<in> reachable example_A"
proof -
  have a: "treap example_A" by (simp add: treap_def example_A_def)
  have s: "split example_A 2 = (Node 1 10 5 Null Null, Node 3 30 4 Null Null, example_A)"
    by (simp add: split_def split_loop_def example_A_def)
  show ?thesis
    using a s split_contract [OF a s] by (simp add: example_A_def)
qed

text \<open>
  C6: for every treap \<open>t\<close> (any pointer graph of the node type, valid or not) and key
  \<open>k\<close>, the loop with the two holes returns the same triple of trees as the recursive
  split, node for node.
\<close>

theorem split_loop_equals_split_rec: "split_loop t k = split_rec t k"
  by (rule split_loop_split_rec)

text \<open>
  C7: removing a key that a valid dictionary does not hold returns a dictionary with
  the same entries (the same traversal); it is not an error.
\<close>

theorem remove_absent_key:
  assumes "treap (root D)" and "k \<notin> keys (root D)"
  shows "traverse (root (remove_treap D k placeholder rnd)) = traverse (root D)"
proof -
  let ?one = "Node k placeholder rnd Null Null"
  from assms(1) have b: "bst (root D)" "bst ?one" by (simp_all add: treap_def)
  have "traverse (difference_helper (root D) ?one) = traverse (root D)"
  proof (rule traverse_unique)
    show "bst (difference_helper (root D) ?one)"
      using difference_helper_bst_keys [OF b] by simp
    show "bst (root D)" by (rule b(1))
    show "lookup (difference_helper (root D) ?one) k' = lookup (root D) k'" for k'
      using difference_helper_lookup [OF b, of k'] lookup_None_iff [of "root D" k] assms(2)
      by auto
  qed
  then show ?thesis by (simp add: remove_treap_def difference_def new_PersistTreap_def)
qed

theorem remove_absent_key_witness:
  "treap (root \<lparr>root = example_A\<rparr>) \<and> 7 \<notin> keys (root \<lparr>root = example_A\<rparr>) \<and>
   traverse (root (remove_treap \<lparr>root = example_A\<rparr> 7 0 3)) = [(1, 10), (2, 20), (3, 30)] \<and>
   traverse (root \<lparr>root = example_A\<rparr>) = [(1, 10), (2, 20), (3, 30)]"
proof -
  have a: "treap (root \<lparr>root = example_A\<rparr>)" by (simp add: treap_def example_A_def)
  have n: "7 \<notin> keys (root \<lparr>root = example_A\<rparr>)" by (simp add: example_A_def)
  have t: "traverse (root \<lparr>root = example_A\<rparr>) = [(1, 10), (2, 20), (3, 30)]"
    by (simp add: example_A_def)
  show ?thesis
    using a n t remove_absent_key [OF a n, of 0 3] by simp
qed

text \<open>
  C8: the placeholder value of \<open>remove\<close> is never read: removing \<open>k\<close> with one
  placeholder returns the same treap as removing it with any other; more generally,
  changing the values stored in the second operand of \<open>difference_helper\<close> in any way
  does not change its result.
\<close>

theorem remove_placeholder_irrelevant:
  "remove_treap A k placeholder1 rnd = remove_treap A k placeholder2 rnd \<and>
   difference_helper v1 (map_vals f v2) = difference_helper v1 v2"
proof -
  have "difference_helper (root A) (map_vals (\<lambda>k' x. placeholder2) (Node k placeholder1 rnd Null Null)) =
      difference_helper (root A) (Node k placeholder1 rnd Null Null)"
    by (rule difference_helper_map_vals)
  then have "remove_treap A k placeholder1 rnd = remove_treap A k placeholder2 rnd"
    by (simp add: remove_treap_def difference_def new_PersistTreap_def)
  then show ?thesis by (simp add: difference_helper_map_vals)
qed

text \<open>
  C9: in \<open>union_helper\<close>, \<open>intersect_helper\<close> and \<open>difference_helper\<close> on two non-nil
  operands, the result is built from recursive calls on a child of the pivot and the
  matching part of the split of the other operand, and for each of these calls the
  number of nodes of its two arguments together is strictly smaller than that of the
  two operands together. (The three functions are total: their definitions are
  accepted with this measure.)
\<close>

theorem set_operations_recursive_calls_decrease:
  assumes "v1 = Node k1 x1 p1 l1 r1" and "v2 = Node k2 x2 p2 l2 r2"
    and "split v2 k1 = (t1, t2, a)" and "split v1 k2 = (s1, s2, b)"
  shows "union_helper v1 v2 =
      (if p1 < p2 then Node k1 x1 p1 (union_helper l1 t1) (union_helper r1 t2)
       else Node k2 (case b of Null \<Rightarrow> x2 | Node kb xb pb lb rb \<Rightarrow> xb) p2
              (union_helper s1 l2) (union_helper s2 r2)) \<and>
    intersect_helper v1 v2 =
      (if p1 < p2 then
         (case a of Null \<Rightarrow> join (intersect_helper l1 t1) (intersect_helper r1 t2)
          | Node ka xa pa la ra \<Rightarrow>
              Node k1 x1 p1 (intersect_helper l1 t1) (intersect_helper r1 t2))
       else
         (case b of Null \<Rightarrow> join (intersect_helper s1 l2) (intersect_helper s2 r2)
          | Node kb xb pb lb rb \<Rightarrow>
              Node k2 xb p2 (intersect_helper s1 l2) (intersect_helper s2 r2))) \<and>
    difference_helper v1 v2 =
      (case a of
         Null \<Rightarrow> Node k1 x1 p1 (difference_helper l1 t1) (difference_helper r1 t2)
       | Node ka xa pa la ra \<Rightarrow> join (difference_helper l1 t1) (difference_helper r1 t2)) \<and>
    nodes l1 + nodes t1 < nodes v1 + nodes v2 \<and>
    nodes r1 + nodes t2 < nodes v1 + nodes v2 \<and>
    nodes s1 + nodes l2 < nodes v1 + nodes v2 \<and>
    nodes s2 + nodes r2 < nodes v1 + nodes v2"
proof -
  from split_nodes [OF assms(3)] have "nodes t1 \<le> nodes v2" "nodes t2 \<le> nodes v2"
    by simp_all
  moreover from split_nodes [OF assms(4)] have "nodes s1 \<le> nodes v1" "nodes s2 \<le> nodes v1"
    by simp_all
  ultimately have "nodes l1 + nodes t1 < nodes v1 + nodes v2"
    "nodes r1 + nodes t2 < nodes v1 + nodes v2"
    "nodes s1 + nodes l2 < nodes v1 + nodes v2"
    "nodes s2 + nodes r2 < nodes v1 + nodes v2"
    by (simp_all add: assms(1,2))
  moreover have "union_helper v1 v2 =
      (if p1 < p2 then Node k1 x1 p1 (union_helper l1 t1) (union_helper r1 t2)
       else Node k2 (case b of Null \<Rightarrow> x2 | Node kb xb pb lb rb \<Rightarrow> xb) p2
              (union_helper s1 l2) (union_helper s2 r2))"
    using assms(3,4) unfolding assms(1,2)
    by (simp add: union_helper_Less union_helper_NotLess del: union_helper.simps)
  moreover have "intersect_helper v1 v2 =
      (if p1 < p2 then
         (case a of Null \<Rightarrow> join (intersect_helper l1 t1) (intersect_helper r1 t2)
          | Node ka xa pa la ra \<Rightarrow>
              Node k1 x1 p1 (intersect_helper l1 t1) (intersect_helper r1 t2))
       else
         (case b of Null \<Rightarrow> join (intersect_helper s1 l2) (intersect_helper s2 r2)
          | Node kb xb pb lb rb \<Rightarrow>
              Node k2 xb p2 (intersect_helper s1 l2) (intersect_helper s2 r2)))"
    using assms(3,4) unfolding assms(1,2)
    by (simp add: intersect_helper_Less intersect_helper_NotLess del: intersect_helper.simps)
  moreover have "difference_helper v1 v2 =
      (case a of
         Null \<Rightarrow> Node k1 x1 p1 (difference_helper l1 t1) (difference_helper r1 t2)
       | Node ka xa pa la ra \<Rightarrow> join (difference_helper l1 t1) (difference_helper r1 t2))"
    using assms(3) unfolding assms(1,2)
    by (simp add: difference_helper_Pivot del: difference_helper.simps)
  ultimately show ?thesis by simp
qed

theorem set_operations_recursive_calls_decrease_witness:
  "split example_B 2 = (Null, Node 3 3000 2 Null (Node 4 4000 7 Null Null), Node 2 2000 3 Null Null) \<and>
   split example_A 3 = (Node 2 20 1 (Node 1 10 5 Null Null) Null, Null, Node 3 30 4 Null Null) \<and>
   nodes (Node 1 10 5 Null Null :: (nat, nat) node) + nodes (Null :: (nat, nat) node)
     < nodes example_A + nodes example_B \<and>
   nodes (Node 3 30 4 Null Null :: (nat, nat) node)
     + nodes (Node 3 3000 2 Null (Node 4 4000 7 Null Null) :: (nat, nat) node)
     < nodes example_A + nodes example_B \<and>
   union_helper example_A example_B =
     Node 2 20 1 (union_helper (Node 1 10 5 Null Null) Null)
       (union_helper (Node 3 30 4 Null Null) (Node 3 3000 2 Null (Node 4 4000 7 Null Null)))"
proof -
  have s1: "split example_B 2 =
      (Null, Node 3 3000 2 Null (Node 4 4000 7 Null Null), Node 2 2000 3 Null Null)"
    by (simp add: split_def split_loop_def example_B_def)
  have s2: "split example_A 3 =
      (Node 2 20 1 (Node 1 10 5 Null Null) Null, Null, Node 3 30 4 Null Null)"
    by (simp add: split_def split_loop_def example_A_def)
  show ?thesis
    using s1 s2 set_operations_recursive_calls_decrease [OF example_A_def example_B_def s1 s2]
    by simp
qed

text \<open>
  C10: when the roots of two non-nil operands have the same priority, the root of
  \<open>join\<close> and the root of \<open>union_helper\<close> is the root of the second operand: their
  results carry the second root's key at the root.
\<close>

theorem equal_priority_second_root_wins:
  "root_key (join (Node k1 x1 q l1 r1) (Node k2 x2 q l2 r2)) = Some k2 \<and>
   root_key (union_helper (Node k1 x1 q l1 r1) (Node k2 x2 q l2 r2)) = Some k2"
  by (simp split: prod.splits)

end
